theory Spec2Isabelle
  imports Main "HOL-Library.Multiset"
begin

section \<open>Python list indexing\<close>

text \<open>
  The board of the program is a Python list of lists of integers. Reading or writing
  \<open>xs[i]\<close> accepts an index in \<open>[-len, len)\<close>, a negative one counting from the end,
  and raises \<open>IndexError\<close> otherwise. Exceptions are values: a computation that may
  raise returns \<open>py_error + 'a\<close>, with \<open>Inl\<close> for the exception.
\<close>

datatype py_error = IndexError

definition py_index :: "int \<Rightarrow> nat \<Rightarrow> nat option" where
  "py_index i n =
     (if 0 \<le> i \<and> i < int n then Some (nat i)
      else if - int n \<le> i \<and> i < 0 then Some (nat (i + int n))
      else None)"

definition getitem :: "'a list \<Rightarrow> int \<Rightarrow> py_error + 'a" where
  "getitem xs i = (case py_index i (length xs) of None \<Rightarrow> Inl IndexError | Some k \<Rightarrow> Inr (xs ! k))"

definition setitem :: "'a list \<Rightarrow> int \<Rightarrow> 'a \<Rightarrow> py_error + 'a list" where
  "setitem xs i v = (case py_index i (length xs) of None \<Rightarrow> Inl IndexError | Some k \<Rightarrow> Inr (xs[k := v]))"

section \<open>Board and knight offsets\<close>

type_synonym board = "int list list"

definition BOARD_SIZE :: int where
  "BOARD_SIZE = 8"

definition KNIGHT_MOVES :: "(int \<times> int) list" where
  "KNIGHT_MOVES = [(2, 1), (2, -1), (-2, 1), (-2, -1), (1, 2), (1, -2), (-1, 2), (-1, -2)]"

text \<open>\<open>[[0 for _ in range(BOARD_SIZE)] for _ in range(BOARD_SIZE)]\<close>\<close>

definition empty_board :: board where
  "empty_board = replicate (nat BOARD_SIZE) (replicate (nat BOARD_SIZE) 0)"

text \<open>\<open>board[x][y]\<close> and \<open>board[x][y] = v\<close>: the row is fetched first, then indexed.
  The rows are distinct objects, so updating one row in place is updating the board at
  that row.\<close>

definition board_get :: "board \<Rightarrow> int \<Rightarrow> int \<Rightarrow> py_error + int" where
  "board_get board x y = (case getitem board x of Inl e \<Rightarrow> Inl e | Inr row \<Rightarrow> getitem row y)"

definition board_set :: "board \<Rightarrow> int \<Rightarrow> int \<Rightarrow> int \<Rightarrow> py_error + board" where
  "board_set board x y v =
     (case py_index x (length board) of
        None \<Rightarrow> Inl IndexError
      | Some i \<Rightarrow> (case setitem (board ! i) y v of Inl e \<Rightarrow> Inl e | Inr row \<Rightarrow> Inr (board[i := row])))"

section \<open>Move generator\<close>

text \<open>\<open>is_valid_move\<close>: the conjunction is short-circuit, the board is read only after
  the bounds check passed.\<close>

definition is_valid_move :: "int \<Rightarrow> int \<Rightarrow> board \<Rightarrow> py_error + bool" where
  "is_valid_move x y board =
     (if 0 \<le> x \<and> x < BOARD_SIZE \<and> 0 \<le> y \<and> y < BOARD_SIZE
      then (case board_get board x y of Inl e \<Rightarrow> Inl e | Inr v \<Rightarrow> Inr (v = 0))
      else Inr False)"

text \<open>The \<open>for dx, dy in KNIGHT_MOVES\<close> loop of \<open>get_valid_moves\<close>, with the list
  \<open>valid_moves\<close> built so far as accumulator.\<close>

fun get_valid_moves_loop ::
  "(int \<times> int) list \<Rightarrow> int \<Rightarrow> int \<Rightarrow> board \<Rightarrow> (int \<times> int) list \<Rightarrow> py_error + (int \<times> int) list" where
  "get_valid_moves_loop [] x y board valid_moves = Inr valid_moves"
| "get_valid_moves_loop ((dx, dy) # rest) x y board valid_moves =
     (case is_valid_move (x + dx) (y + dy) board of
        Inl e \<Rightarrow> Inl e
      | Inr ok \<Rightarrow>
          get_valid_moves_loop rest x y board
            (if ok then valid_moves @ [(x + dx, y + dy)] else valid_moves))"

definition get_valid_moves :: "int \<Rightarrow> int \<Rightarrow> board \<Rightarrow> py_error + (int \<times> int) list" where
  "get_valid_moves x y board = get_valid_moves_loop KNIGHT_MOVES x y board []"

definition count_onward_moves :: "int \<Rightarrow> int \<Rightarrow> board \<Rightarrow> py_error + nat" where
  "count_onward_moves x y board =
     (case get_valid_moves x y board of Inl e \<Rightarrow> Inl e | Inr moves \<Rightarrow> Inr (length moves))"

text \<open>\<open>list.sort(key=...)\<close> first computes the key of every element, in order, then
  sorts the elements by their keys alone; the sort is stable.\<close>

fun sort_keys :: "(int \<times> int) list \<Rightarrow> board \<Rightarrow> py_error + nat list" where
  "sort_keys [] board = Inr []"
| "sort_keys (move # rest) board =
     (case count_onward_moves (fst move) (snd move) board of
        Inl e \<Rightarrow> Inl e
      | Inr k \<Rightarrow> (case sort_keys rest board of Inl e \<Rightarrow> Inl e | Inr ks \<Rightarrow> Inr (k # ks)))"

definition get_sorted_moves :: "int \<Rightarrow> int \<Rightarrow> board \<Rightarrow> py_error + (int \<times> int) list" where
  "get_sorted_moves x y board =
     (case get_valid_moves x y board of
        Inl e \<Rightarrow> Inl e
      | Inr valid_moves \<Rightarrow>
          (case sort_keys valid_moves board of
             Inl e \<Rightarrow> Inl e
           | Inr keys \<Rightarrow> Inr (map snd (sort_key fst (zip keys valid_moves)))))"

section \<open>Closure check\<close>

fun is_closed_tour_loop :: "(int \<times> int) list \<Rightarrow> int \<times> int \<Rightarrow> int \<times> int \<Rightarrow> bool" where
  "is_closed_tour_loop [] (x, y) (start_x, start_y) = False"
| "is_closed_tour_loop ((dx, dy) # rest) (x, y) (start_x, start_y) =
     (if x + dx = start_x \<and> y + dy = start_y then True
      else is_closed_tour_loop rest (x, y) (start_x, start_y))"

definition is_closed_tour :: "int \<times> int \<Rightarrow> int \<times> int \<Rightarrow> bool" where
  "is_closed_tour current_pos start_pos = is_closed_tour_loop KNIGHT_MOVES current_pos start_pos"

section \<open>Randomized search\<close>

text \<open>
  \<open>random.choice(seq)\<close> returns \<open>seq[k]\<close> for an index \<open>k\<close> below \<open>len(seq)\<close>
  drawn from the generator, and raises \<open>IndexError\<close> on an empty sequence. The
  generator is an explicit argument: \<open>rnd\<close> is the sequence of raw values it will
  produce, \<open>rnd 0\<close> the next one. Every outcome of the random choices is the run for
  some \<open>rnd\<close>.
\<close>

definition random_choice :: "nat \<Rightarrow> 'a list \<Rightarrow> py_error + 'a" where
  "random_choice r seq = (if seq = [] then Inl IndexError else Inr (seq ! (r mod length seq)))"

definition total_squares :: int where
  "total_squares = BOARD_SIZE * BOARD_SIZE"

text \<open>The \<open>while move_count < total_squares\<close> loop of \<open>KnightsTourLasVegas\<close>; it
  returns the loop variables at exit.\<close>

function KnightsTourLasVegas_loop ::
  "(nat \<Rightarrow> nat) \<Rightarrow> int \<Rightarrow> int \<Rightarrow> int \<Rightarrow> board \<Rightarrow> py_error + (int \<times> int \<times> int \<times> board)" where
  "KnightsTourLasVegas_loop rnd current_x current_y move_count board =
     (if move_count < total_squares then
        (case get_valid_moves current_x current_y board of
           Inl e \<Rightarrow> Inl e
         | Inr valid_moves \<Rightarrow>
             if valid_moves = [] then Inr (current_x, current_y, move_count, board)
             else (case random_choice (rnd 0) valid_moves of
                     Inl e \<Rightarrow> Inl e
                   | Inr (next_x, next_y) \<Rightarrow>
                       (case board_set board next_x next_y (move_count + 1) of
                          Inl e \<Rightarrow> Inl e
                        | Inr board' \<Rightarrow>
                            KnightsTourLasVegas_loop (\<lambda>i. rnd (Suc i)) next_x next_y
                              (move_count + 1) board')))
      else Inr (current_x, current_y, move_count, board))"
  by pat_completeness auto
termination
  by (relation "measure (\<lambda>(rnd, current_x, current_y, move_count, board). nat (total_squares - move_count))")
    auto

definition KnightsTourLasVegas :: "(nat \<Rightarrow> nat) \<Rightarrow> int \<times> int \<Rightarrow> py_error + bool \<times> board" where
  "KnightsTourLasVegas rnd startingPosition =
     (case startingPosition of (x, y) \<Rightarrow>
        (case board_set empty_board x y 1 of
           Inl e \<Rightarrow> Inl e
         | Inr board \<Rightarrow>
             (case KnightsTourLasVegas_loop rnd x y 1 board of
                Inl e \<Rightarrow> Inl e
              | Inr (current_x, current_y, move_count, board') \<Rightarrow>
                  Inr (move_count = total_squares
                         \<and> is_closed_tour (current_x, current_y) startingPosition,
                       board'))))"

section \<open>Exhaustive backtracking search\<close>

text \<open>
  The nested function \<open>backtrack\<close> closes over \<open>startingPosition\<close> and over the
  board, which it updates in place: both are arguments here and the board is returned
  with the flag. \<open>backtrack_for\<close> is the \<open>for next_x, next_y in sorted_moves\<close> loop
  over the moves still to try.
\<close>

function backtrack :: "int \<times> int \<Rightarrow> int \<Rightarrow> int \<Rightarrow> int \<Rightarrow> board \<Rightarrow> py_error + bool \<times> board"
  and backtrack_for :: "int \<times> int \<Rightarrow> int \<Rightarrow> (int \<times> int) list \<Rightarrow> board \<Rightarrow> py_error + bool \<times> board" where
  "backtrack startingPosition x y move_count board =
     (if move_count = total_squares then Inr (is_closed_tour (x, y) startingPosition, board)
      else (case get_sorted_moves x y board of
              Inl e \<Rightarrow> Inl e
            | Inr sorted_moves \<Rightarrow> backtrack_for startingPosition move_count sorted_moves board))"
| "backtrack_for startingPosition move_count [] board = Inr (False, board)"
| "backtrack_for startingPosition move_count ((next_x, next_y) # rest) board =
     (case board_set board next_x next_y (move_count + 1) of
        Inl e \<Rightarrow> Inl e
      | Inr board1 \<Rightarrow>
          (case backtrack startingPosition next_x next_y (move_count + 1) board1 of
             Inl e \<Rightarrow> Inl e
           | Inr (found, board2) \<Rightarrow>
               if found then Inr (True, board2)
               else (case board_set board2 next_x next_y 0 of
                       Inl e \<Rightarrow> Inl e
                     | Inr board3 \<Rightarrow> backtrack_for startingPosition move_count rest board3)))"
  by pat_completeness auto

definition KnightsTourBacktracking :: "int \<times> int \<Rightarrow> py_error + bool \<times> board" where
  "KnightsTourBacktracking startingPosition =
     (case startingPosition of (x, y) \<Rightarrow>
        (case board_set empty_board x y 1 of
           Inl e \<Rightarrow> Inl e
         | Inr board \<Rightarrow> backtrack startingPosition x y 1 board))"

section \<open>Termination of the backtracking search\<close>

text \<open>
  Every recursive call of \<open>backtrack\<close> is made on a board with one unvisited cell less.
  The measure counts the cells of the board that hold 0, together with the cells the
  moves still to try would write to; the board returned by a call has no zero cell that
  the board it was given did not have.
\<close>

definition board_cells :: "board \<Rightarrow> (nat \<times> nat) set" where
  "board_cells b = {(i, j). i < length b \<and> j < length (b ! i)}"

definition zero_cells :: "board \<Rightarrow> (nat \<times> nat) set" where
  "zero_cells b = {(i, j). (i, j) \<in> board_cells b \<and> b ! i ! j = 0}"

definition target :: "board \<Rightarrow> int \<times> int \<Rightarrow> (nat \<times> nat) set" where
  "target b m = {(i, j). py_index (fst m) (length b) = Some i \<and> py_index (snd m) (length (b ! i)) = Some j}"

definition targets :: "board \<Rightarrow> (int \<times> int) list \<Rightarrow> (nat \<times> nat) set" where
  "targets b ms = (\<Union>m\<in>set ms. target b m)"

lemma py_index_less: "py_index i n = Some k \<Longrightarrow> k < n"
  by (auto simp: py_index_def split: if_splits)

lemma py_index_nonneg: "0 \<le> i \<Longrightarrow> py_index i n = Some k \<Longrightarrow> k = nat i"
  by (auto simp: py_index_def split: if_splits)

lemma finite_board_cells: "finite (board_cells b)"
proof -
  have "board_cells b \<subseteq> (SIGMA i:{..<length b}. {..<length (b ! i)})"
    by (auto simp: board_cells_def)
  then show ?thesis by (rule finite_subset) auto
qed

lemma zero_cells_subset: "zero_cells b \<subseteq> board_cells b"
  by (auto simp: zero_cells_def)

lemma target_subset: "target b m \<subseteq> board_cells b"
  by (auto simp: target_def board_cells_def dest: py_index_less)

lemma targets_subset: "targets b ms \<subseteq> board_cells b"
  using target_subset by (auto simp: targets_def)

lemma finite_zero_cells: "finite (zero_cells b)"
  using zero_cells_subset finite_board_cells by (rule finite_subset)

lemma finite_targets: "finite (targets b ms)"
  using targets_subset finite_board_cells by (rule finite_subset)

lemma board_set_Inr:
  assumes "board_set b x y v = Inr b'"
  obtains i j where "i < length b" "j < length (b ! i)" "target b (x, y) = {(i, j)}"
    "b' = b[i := (b ! i)[j := v]]"
proof -
  from assms obtain i where i: "py_index x (length b) = Some i"
    by (auto simp: board_set_def split: option.splits)
  with assms obtain j where j: "py_index y (length (b ! i)) = Some j"
    and b': "b' = b[i := (b ! i)[j := v]]"
    by (auto simp: board_set_def setitem_def split: option.splits)
  have "target b (x, y) = {(i, j)}" using i j by (auto simp: target_def)
  with i j b' that show thesis by (auto dest: py_index_less)
qed

lemma lengths_update:
  "i < length b \<Longrightarrow> map length (b[i := (b ! i)[j := v]]) = map length b"
  by (simp add: list_eq_iff_nth_eq nth_list_update)

lemma board_cells_cong: "map length b' = map length b \<Longrightarrow> board_cells b' = board_cells b"
proof -
  assume a: "map length b' = map length b"
  then have l: "length b' = length b" by (metis length_map)
  have "\<And>i. i < length b \<Longrightarrow> length (b' ! i) = length (b ! i)"
    using a l by (metis nth_map)
  with l show ?thesis by (auto simp: board_cells_def)
qed

lemma target_cong:
  assumes "map length b' = map length b"
  shows "target b' m = target b m"
proof -
  from assms have l: "length b' = length b" by (metis length_map)
  have r: "length (b' ! i) = length (b ! i)" if "i < length b" for i
    using assms l that by (metis nth_map)
  have "(py_index (fst m) (length b') = Some i \<and> py_index (snd m) (length (b' ! i)) = Some j) \<longleftrightarrow>
        (py_index (fst m) (length b) = Some i \<and> py_index (snd m) (length (b ! i)) = Some j)" for i j
  proof (cases "py_index (fst m) (length b) = Some i")
    case True
    then have "i < length b" by (rule py_index_less)
    then show ?thesis using l r by simp
  next
    case False
    then show ?thesis using l by simp
  qed
  then show ?thesis unfolding target_def by simp
qed

lemma targets_cong:
  assumes "map length b' = map length b"
  shows "targets b' ms = targets b ms"
proof -
  have "target b' m = target b m" for m using assms by (rule target_cong)
  then show ?thesis by (simp add: targets_def)
qed

lemma zero_cells_update:
  assumes "i < length b" "j < length (b ! i)"
  shows "zero_cells (b[i := (b ! i)[j := v]]) =
           (if v = 0 then insert (i, j) (zero_cells b) else zero_cells b - {(i, j)})"
proof -
  let ?b = "b[i := (b ! i)[j := v]]"
  have c: "board_cells ?b = board_cells b"
    using assms by (intro board_cells_cong lengths_update)
  have n: "\<And>p q. (p, q) \<in> board_cells b \<Longrightarrow> ?b ! p ! q = (if (p, q) = (i, j) then v else b ! p ! q)"
    using assms by (auto simp: board_cells_def nth_list_update)
  have ij: "(i, j) \<in> board_cells b" using assms by (simp add: board_cells_def)
  show ?thesis unfolding zero_cells_def c using n ij by (auto split: if_splits)
qed

lemma board_set_lengths: "board_set b x y v = Inr b' \<Longrightarrow> map length b' = map length b"
  by (erule board_set_Inr) (simp add: lengths_update)

lemma board_set_zero_cells_subset:
  "board_set b x y v = Inr b' \<Longrightarrow> zero_cells b' \<subseteq> zero_cells b \<union> target b (x, y)"
  by (erule board_set_Inr) (auto simp: zero_cells_update split: if_splits)

lemma board_set_zero_cells_mark:
  "board_set b x y v = Inr b' \<Longrightarrow> v \<noteq> 0 \<Longrightarrow> zero_cells b' = zero_cells b - target b (x, y)"
  by (erule board_set_Inr) (auto simp: zero_cells_update split: if_splits)

lemma board_set_target_nonempty:
  "board_set b x y v = Inr b' \<Longrightarrow> target b (x, y) \<noteq> {}"
  by (erule board_set_Inr) simp

lemma is_valid_move_True:
  assumes "is_valid_move x y b = Inr True"
  shows "0 \<le> x" "x < BOARD_SIZE" "0 \<le> y" "y < BOARD_SIZE"
    "nat x < length b" "nat y < length (b ! nat x)" "b ! nat x ! nat y = 0"
    "target b (x, y) = {(nat x, nat y)}"
proof -
  from assms show r: "0 \<le> x" "x < BOARD_SIZE" "0 \<le> y" "y < BOARD_SIZE"
    by (auto simp: is_valid_move_def split: if_splits)
  with assms have g: "board_get b x y = Inr 0"
    by (auto simp: is_valid_move_def split: sum.splits)
  then obtain i where i: "py_index x (length b) = Some i"
    by (auto simp: board_get_def getitem_def split: option.splits sum.splits)
  with r have i': "i = nat x" by (auto dest: py_index_nonneg)
  from g i obtain j where j: "py_index y (length (b ! i)) = Some j" and z: "b ! i ! j = 0"
    by (auto simp: board_get_def getitem_def split: option.splits sum.splits)
  with r have j': "j = nat y" by (auto dest: py_index_nonneg)
  from i i' show "nat x < length b" by (auto dest: py_index_less)
  from j i' j' show "nat y < length (b ! nat x)" by (auto dest: py_index_less)
  from z i' j' show "b ! nat x ! nat y = 0" by simp
  from i j i' j' show "target b (x, y) = {(nat x, nat y)}" by (auto simp: target_def)
qed

lemma is_valid_move_target_zero:
  "is_valid_move x y b = Inr True \<Longrightarrow> target b (x, y) \<subseteq> zero_cells b"
  using is_valid_move_True[of x y b] by (simp add: zero_cells_def board_cells_def)

lemma get_valid_moves_loop_valid:
  "get_valid_moves_loop ds x y b acc = Inr ms \<Longrightarrow> m \<in> set ms \<Longrightarrow>
     m \<in> set acc \<or> is_valid_move (fst m) (snd m) b = Inr True"
proof (induction ds x y b acc rule: get_valid_moves_loop.induct)
  case (1 x y board valid_moves)
  then show ?case by simp
next
  case (2 dx dy rest x y board valid_moves)
  then show ?case by (auto split: sum.splits if_splits)
qed

lemma get_valid_moves_valid:
  "get_valid_moves x y b = Inr ms \<Longrightarrow> m \<in> set ms \<Longrightarrow> is_valid_move (fst m) (snd m) b = Inr True"
  unfolding get_valid_moves_def by (drule get_valid_moves_loop_valid) auto

lemma sort_keys_length: "sort_keys ms b = Inr ks \<Longrightarrow> length ks = length ms"
  by (induction ms arbitrary: ks) (auto split: sum.splits)

lemma set_sorted_zip:
  assumes "length ks = length ms"
  shows "set (map snd (sort_key fst (zip ks ms))) = set ms"
proof -
  have "set (map snd (sort_key fst (zip ks ms))) = snd ` set (zip ks ms)" by simp
  also have "\<dots> = set (map snd (zip ks ms))" by simp
  also have "\<dots> = set ms" using assms by (simp only: map_snd_zip)
  finally show ?thesis .
qed

lemma get_sorted_moves_set:
  assumes "get_sorted_moves x y b = Inr sm"
  shows "\<exists>vm. get_valid_moves x y b = Inr vm \<and> set sm = set vm"
proof -
  from assms obtain vm ks where vm: "get_valid_moves x y b = Inr vm"
    and ks: "sort_keys vm b = Inr ks" and sm: "sm = map snd (sort_key fst (zip ks vm))"
    by (auto simp: get_sorted_moves_def split: sum.splits)
  from ks have "length ks = length vm" by (rule sort_keys_length)
  then have "set sm = set vm" unfolding sm by (rule set_sorted_zip)
  with vm show ?thesis by blast
qed

lemma get_sorted_moves_valid:
  assumes "get_sorted_moves x y b = Inr ms" "m \<in> set ms"
  shows "is_valid_move (fst m) (snd m) b = Inr True"
proof -
  from assms(1) obtain vm where vm: "get_valid_moves x y b = Inr vm" and s: "set ms = set vm"
    using get_sorted_moves_set by blast
  from assms(2) s have "m \<in> set vm" by simp
  with vm show ?thesis by (rule get_valid_moves_valid)
qed

lemma get_sorted_moves_targets:
  assumes "get_sorted_moves x y b = Inr ms"
  shows "targets b ms \<subseteq> zero_cells b"
proof -
  have "target b m \<subseteq> zero_cells b" if "m \<in> set ms" for m
  proof -
    have "is_valid_move (fst m) (snd m) b = Inr True" using assms that by (rule get_sorted_moves_valid)
    then have "target b (fst m, snd m) \<subseteq> zero_cells b" by (rule is_valid_move_target_zero)
    then show ?thesis by simp
  qed
  then show ?thesis unfolding targets_def by blast
qed

lemma backtrack_partial:
  "backtrack_backtrack_for_dom (Inl (sp, x, y, mc, b)) \<Longrightarrow> backtrack sp x y mc b = Inr (ok, b') \<Longrightarrow>
     map length b' = map length b \<and> zero_cells b' \<subseteq> zero_cells b"
  "backtrack_backtrack_for_dom (Inr (sp, mc, ms, b)) \<Longrightarrow> backtrack_for sp mc ms b = Inr (ok, b') \<Longrightarrow>
     map length b' = map length b \<and> zero_cells b' \<subseteq> zero_cells b \<union> targets b ms"
proof (induction sp x y mc b and sp mc ms b arbitrary: ok b' and ok b' rule: backtrack_backtrack_for.pinduct)
  case (1 sp x y mc b)
  show ?case
  proof (cases "mc = total_squares")
    case True
    with 1(1,3) show ?thesis by (simp add: backtrack.psimps)
  next
    case False
    with 1(1,3) obtain ms where ms: "get_sorted_moves x y b = Inr ms"
      and r: "backtrack_for sp mc ms b = Inr (ok, b')"
      by (auto simp: backtrack.psimps split: sum.splits)
    from 1(2)[OF False ms r] get_sorted_moves_targets[OF ms] show ?thesis by blast
  qed
next
  case (2 sp mc b)
  then show ?case by (simp add: backtrack_for.psimps)
next
  case (3 sp mc nx ny rest b)
  from 3(1,4) obtain b1 where b1: "board_set b nx ny (mc + 1) = Inr b1"
    by (auto simp: backtrack_for.psimps split: sum.splits)
  with 3(1,4) obtain found b2 where b2: "backtrack sp nx ny (mc + 1) b1 = Inr (found, b2)"
    by (auto simp: backtrack_for.psimps split: sum.splits)
  note ih1 = 3(2)[OF b1 b2]
  have l1: "map length b1 = map length b" using b1 by (rule board_set_lengths)
  have z1: "zero_cells b1 \<subseteq> zero_cells b \<union> target b (nx, ny)"
    using b1 by (rule board_set_zero_cells_subset)
  have t: "targets b ((nx, ny) # rest) = target b (nx, ny) \<union> targets b rest"
    by (simp add: targets_def)
  have l2: "map length b2 = map length b" using ih1 l1 by simp
  have z2: "zero_cells b2 \<subseteq> zero_cells b \<union> target b (nx, ny)" using ih1 z1 by blast
  show ?case
  proof (cases found)
    case True
    with 3(1,4) b1 b2 have "b' = b2" by (simp add: backtrack_for.psimps)
    with l2 z2 t show ?thesis by blast
  next
    case False
    with 3(1,4) b1 b2 obtain b3 where b3: "board_set b2 nx ny 0 = Inr b3"
      and r: "backtrack_for sp mc rest b3 = Inr (ok, b')"
      by (auto simp: backtrack_for.psimps split: sum.splits)
    note ih2 = 3(3)[OF b1 b2 refl False b3 r]
    have l3: "map length b3 = map length b" using board_set_lengths[OF b3] l2 by simp
    have "zero_cells b3 \<subseteq> zero_cells b2 \<union> target b2 (nx, ny)"
      using b3 by (rule board_set_zero_cells_subset)
    moreover have "target b2 (nx, ny) = target b (nx, ny)" using l2 by (rule target_cong)
    ultimately have z3: "zero_cells b3 \<subseteq> zero_cells b \<union> target b (nx, ny)" using z2 by blast
    have t3: "targets b3 rest = targets b rest" using l3 by (rule targets_cong)
    from ih2 have "map length b' = map length b3" and "zero_cells b' \<subseteq> zero_cells b3 \<union> targets b3 rest"
      by blast+
    with l3 z3 t3 t show ?thesis by auto
  qed
qed

lemma measure_enter_loop:
  assumes "get_sorted_moves x y b = Inr ms"
  shows "zero_cells b \<union> targets b ms = zero_cells b"
  using get_sorted_moves_targets[OF assms] by blast

lemma measure_mark:
  assumes "board_set b nx ny v = Inr b1"
  shows "card (zero_cells b1) \<le> card (zero_cells b \<union> targets b ((nx, ny) # rest))"
    and "v \<noteq> 0 \<Longrightarrow> card (zero_cells b1) < card (zero_cells b \<union> targets b ((nx, ny) # rest))"
proof -
  let ?U = "zero_cells b \<union> targets b ((nx, ny) # rest)"
  have fin: "finite ?U" using finite_zero_cells finite_targets by blast
  have t: "target b (nx, ny) \<subseteq> targets b ((nx, ny) # rest)" by (simp add: targets_def)
  have "zero_cells b1 \<subseteq> zero_cells b \<union> target b (nx, ny)"
    using assms by (rule board_set_zero_cells_subset)
  with t have "zero_cells b1 \<subseteq> ?U" by blast
  with fin show "card (zero_cells b1) \<le> card ?U" by (rule card_mono)
  assume "v \<noteq> 0"
  with assms have e: "zero_cells b1 = zero_cells b - target b (nx, ny)"
    by (rule board_set_zero_cells_mark)
  from assms obtain c where c: "c \<in> target b (nx, ny)"
    using board_set_target_nonempty by blast
  with t have "c \<in> ?U" by blast
  moreover from c e have "c \<notin> zero_cells b1" by blast
  moreover from e t have "zero_cells b1 \<subseteq> ?U" by blast
  ultimately have "zero_cells b1 \<subset> ?U" by blast
  with fin show "card (zero_cells b1) < card ?U" by (rule psubset_card_mono)
qed

lemma measure_unmark:
  assumes b1: "board_set b nx ny v = Inr b1"
    and dom: "backtrack_backtrack_for_dom (Inl (sp, nx, ny, mc, b1))"
    and b2: "backtrack sp nx ny mc b1 = Inr (found, b2)"
    and b3: "board_set b2 nx ny 0 = Inr b3"
  shows "card (zero_cells b3 \<union> targets b3 rest) \<le> card (zero_cells b \<union> targets b ((nx, ny) # rest))"
proof -
  let ?U = "zero_cells b \<union> targets b ((nx, ny) # rest)"
  have fin: "finite ?U" using finite_zero_cells finite_targets by blast
  have t: "targets b ((nx, ny) # rest) = target b (nx, ny) \<union> targets b rest"
    by (simp add: targets_def)
  have l1: "map length b1 = map length b" using b1 by (rule board_set_lengths)
  have z1: "zero_cells b1 \<subseteq> zero_cells b \<union> target b (nx, ny)"
    using b1 by (rule board_set_zero_cells_subset)
  from backtrack_partial(1)[OF dom b2] have l2': "map length b2 = map length b1"
    and z2': "zero_cells b2 \<subseteq> zero_cells b1" by blast+
  from l2' l1 have l2: "map length b2 = map length b" by simp
  have l3: "map length b3 = map length b" using board_set_lengths[OF b3] l2 by simp
  have "zero_cells b3 \<subseteq> zero_cells b2 \<union> target b2 (nx, ny)"
    using b3 by (rule board_set_zero_cells_subset)
  moreover have "target b2 (nx, ny) = target b (nx, ny)" using l2 by (rule target_cong)
  moreover have "targets b3 rest = targets b rest" using l3 by (rule targets_cong)
  ultimately have "zero_cells b3 \<union> targets b3 rest \<subseteq> ?U" using z1 z2' t by auto
  with fin show ?thesis by (rule card_mono)
qed

termination backtrack
proof (relation "measures
    [case_sum (\<lambda>(sp, x, y, mc, b). card (zero_cells b))
              (\<lambda>(sp, mc, ms, b). card (zero_cells b \<union> targets b ms)),
     case_sum (\<lambda>(sp, x, y, mc, b). if mc < 0 then 1 else 0)
              (\<lambda>(sp, mc, ms, b). if mc < 0 then 1 else 0),
     case_sum (\<lambda>_. 1) (\<lambda>_. 0),
     case_sum (\<lambda>_. 0) (\<lambda>(sp, mc, ms, b). length ms)]", goal_cases)
  case 1
  show ?case by simp
next
  case 2
  then show ?case by (simp add: measure_enter_loop)
next
  case (3 startingPosition move_count next_x next_y rest board board1)
  show ?case
  proof (cases "move_count + 1 = 0")
    case True
    then show ?thesis using measure_mark(1)[OF 3, of rest] by (auto simp: le_less)
  next
    case False
    then show ?thesis using measure_mark(2)[OF 3, of rest] by simp
  qed
next
  case (4 startingPosition move_count next_x next_y rest board board1 r found board2 board3)
  from 4(2,3) have "backtrack startingPosition next_x next_y (move_count + 1) board1 = Inr (found, board2)"
    by simp
  with 4(1,6) have "card (zero_cells board3 \<union> targets board3 rest)
          \<le> card (zero_cells board \<union> targets board ((next_x, next_y) # rest))"
    using 4(5) by (rule measure_unmark)
  then show ?case by (auto simp: le_less)
qed

declare backtrack.simps [simp del]

section \<open>Well-formed boards\<close>

text \<open>
  Both searches allocate an 8 by 8 board and only ever write to cells that passed the
  bounds check, so every board they handle has 8 rows of 8 cells. On such a board no
  access raises, and the move generator is a filter over the 8 offsets.
\<close>

definition in_bounds :: "int \<times> int \<Rightarrow> bool" where
  "in_bounds p \<longleftrightarrow> 0 \<le> fst p \<and> fst p < BOARD_SIZE \<and> 0 \<le> snd p \<and> snd p < BOARD_SIZE"

definition wf_board :: "board \<Rightarrow> bool" where
  "wf_board b \<longleftrightarrow> length b = nat BOARD_SIZE \<and> list_all (\<lambda>row. length row = nat BOARD_SIZE) b"

definition cell :: "board \<Rightarrow> int \<times> int \<Rightarrow> int" where
  "cell b p = b ! nat (fst p) ! nat (snd p)"

definition mark :: "board \<Rightarrow> int \<times> int \<Rightarrow> int \<Rightarrow> board" where
  "mark b p v = b[nat (fst p) := (b ! nat (fst p))[nat (snd p) := v]]"

definition neighbours :: "int \<times> int \<Rightarrow> (int \<times> int) list" where
  "neighbours p = map (\<lambda>(dx, dy). (fst p + dx, snd p + dy)) KNIGHT_MOVES"

definition unvisited :: "board \<Rightarrow> int \<times> int \<Rightarrow> bool" where
  "unvisited b p \<longleftrightarrow> in_bounds p \<and> cell b p = 0"

definition onward_degree :: "board \<Rightarrow> int \<times> int \<Rightarrow> nat" where
  "onward_degree b p = length (filter (unvisited b) (neighbours p))"

lemma wf_board_rows:
  assumes "wf_board b"
  shows "length b = 8" and "\<And>i. i < 8 \<Longrightarrow> length (b ! i) = 8"
  using assms by (auto simp: wf_board_def BOARD_SIZE_def list_all_length)

lemma in_bounds_nat:
  assumes "in_bounds p"
  shows "nat (fst p) < 8" "nat (snd p) < 8" "0 \<le> fst p" "0 \<le> snd p" "fst p < 8" "snd p < 8"
  using assms by (auto simp: in_bounds_def BOARD_SIZE_def)

lemma py_index_in_range: "0 \<le> i \<Longrightarrow> i < int n \<Longrightarrow> py_index i n = Some (nat i)"
  by (simp add: py_index_def)

lemma board_get_wf:
  assumes "wf_board b" "in_bounds (x, y)"
  shows "board_get b x y = Inr (cell b (x, y))"
proof -
  from assms have x: "py_index x (length b) = Some (nat x)"
    by (intro py_index_in_range) (auto simp: wf_board_rows in_bounds_def BOARD_SIZE_def)
  from assms have "length (b ! nat x) = 8"
    using wf_board_rows(2)[of b "nat x"] in_bounds_nat(1)[of "(x, y)"] by simp
  with assms have y: "py_index y (length (b ! nat x)) = Some (nat y)"
    by (intro py_index_in_range) (auto simp: in_bounds_def BOARD_SIZE_def)
  show ?thesis by (simp add: board_get_def getitem_def x y cell_def)
qed

lemma board_set_wf:
  assumes "wf_board b" "in_bounds (x, y)"
  shows "board_set b x y v = Inr (mark b (x, y) v)"
proof -
  from assms have x: "py_index x (length b) = Some (nat x)"
    by (intro py_index_in_range) (auto simp: wf_board_rows in_bounds_def BOARD_SIZE_def)
  from assms have "length (b ! nat x) = 8"
    using wf_board_rows(2)[of b "nat x"] in_bounds_nat(1)[of "(x, y)"] by simp
  with assms have y: "py_index y (length (b ! nat x)) = Some (nat y)"
    by (intro py_index_in_range) (auto simp: in_bounds_def BOARD_SIZE_def)
  show ?thesis by (simp add: board_set_def setitem_def x y mark_def)
qed

lemma wf_board_mark:
  assumes "wf_board b"
  shows "wf_board (mark b p v)"
proof (cases "nat (fst p) < length b")
  case True
  then show ?thesis using assms
    unfolding wf_board_def mark_def list_all_length by (auto simp: nth_list_update)
next
  case False
  then have "mark b p v = b" by (simp add: mark_def list_update_beyond not_less)
  with assms show ?thesis by simp
qed

lemma cell_mark:
  assumes "wf_board b" "in_bounds p" "in_bounds q"
  shows "cell (mark b p v) q = (if q = p then v else cell b q)"
proof -
  note bp = in_bounds_nat[OF assms(2)] and bq = in_bounds_nat[OF assms(3)]
  have l: "length b = 8" using assms(1) by (rule wf_board_rows)
  have r: "length (b ! nat (fst p)) = 8" using assms(1) bp(1) by (rule wf_board_rows)
  show ?thesis
  proof (cases "q = p")
    case True
    then show ?thesis using l r bp by (simp add: cell_def mark_def)
  next
    case False
    then have "nat (fst q) \<noteq> nat (fst p) \<or> nat (snd q) \<noteq> nat (snd p)"
      using bp bq by (auto simp: prod_eq_iff)
    then show ?thesis using False l r bp bq
      by (auto simp: cell_def mark_def nth_list_update)
  qed
qed

lemma wf_board_empty: "wf_board empty_board"
  by (simp add: wf_board_def empty_board_def BOARD_SIZE_def list_all_length)

lemma cell_empty:
  assumes "in_bounds p"
  shows "cell empty_board p = 0"
  using in_bounds_nat(1,2)[OF assms] by (simp add: cell_def empty_board_def BOARD_SIZE_def)

lemma board_ext:
  assumes "wf_board b" "wf_board b'" "\<And>p. in_bounds p \<Longrightarrow> cell b p = cell b' p"
  shows "b = b'"
proof (rule nth_equalityI)
  show "length b = length b'" using assms(1,2) by (simp add: wf_board_rows)
next
  fix i assume "i < length b"
  then have i: "i < 8" using assms(1) by (simp add: wf_board_rows)
  show "b ! i = b' ! i"
  proof (rule nth_equalityI)
    show "length (b ! i) = length (b' ! i)" using assms(1,2) i by (simp add: wf_board_rows)
  next
    fix j assume "j < length (b ! i)"
    then have j: "j < 8" using assms(1) i by (simp add: wf_board_rows)
    have "in_bounds (int i, int j)" using i j by (simp add: in_bounds_def BOARD_SIZE_def)
    from assms(3)[OF this] show "b ! i ! j = b' ! i ! j" by (simp add: cell_def)
  qed
qed

lemma is_valid_move_wf:
  assumes "wf_board b"
  shows "is_valid_move x y b = Inr (unvisited b (x, y))"
proof (cases "in_bounds (x, y)")
  case True
  then show ?thesis using board_get_wf[OF assms True]
    by (simp add: is_valid_move_def unvisited_def in_bounds_def)
next
  case False
  then show ?thesis by (auto simp: is_valid_move_def unvisited_def in_bounds_def)
qed

lemma get_valid_moves_loop_wf:
  assumes "wf_board b"
  shows "get_valid_moves_loop ds x y b acc =
           Inr (acc @ filter (unvisited b) (map (\<lambda>(dx, dy). (x + dx, y + dy)) ds))"
proof (induction ds arbitrary: acc)
  case Nil
  show ?case by simp
next
  case (Cons d ds)
  obtain dx dy where d: "d = (dx, dy)" by (cases d)
  show ?case unfolding d by (simp add: is_valid_move_wf[OF assms] Cons)
qed

lemma get_valid_moves_wf:
  "wf_board b \<Longrightarrow> get_valid_moves x y b = Inr (filter (unvisited b) (neighbours (x, y)))"
  by (simp add: get_valid_moves_def get_valid_moves_loop_wf neighbours_def)

lemma count_onward_moves_wf:
  "wf_board b \<Longrightarrow> count_onward_moves x y b = Inr (onward_degree b (x, y))"
  by (simp add: count_onward_moves_def get_valid_moves_wf onward_degree_def)

lemma sort_keys_wf: "wf_board b \<Longrightarrow> sort_keys ms b = Inr (map (onward_degree b) ms)"
  by (induction ms) (simp_all add: count_onward_moves_wf)

lemma insort_key_decorate:
  "insort_key fst (f x, x) (map (\<lambda>x. (f x, x)) ys) = map (\<lambda>x. (f x, x)) (insort_key f x ys)"
  by (induction ys) simp_all

lemma sort_key_decorate:
  "sort_key fst (map (\<lambda>x. (f x, x)) xs) = map (\<lambda>x. (f x, x)) (sort_key f xs)"
  by (induction xs) (simp_all add: insort_key_decorate)

lemma sort_by_keys: "map snd (sort_key fst (zip (map f xs) xs)) = sort_key f xs"
proof -
  have "zip (map f xs) xs = map (\<lambda>x. (f x, x)) xs"
    by (induction xs) simp_all
  then show ?thesis by (simp add: sort_key_decorate comp_def)
qed

lemma get_sorted_moves_wf:
  "wf_board b \<Longrightarrow>
     get_sorted_moves x y b = Inr (sort_key (onward_degree b) (filter (unvisited b) (neighbours (x, y))))"
  by (simp add: get_sorted_moves_def get_valid_moves_wf sort_keys_wf sort_by_keys)

lemma is_closed_tour_loop_iff:
  "is_closed_tour_loop ds p s \<longleftrightarrow> s \<in> set (map (\<lambda>(dx, dy). (fst p + dx, snd p + dy)) ds)"
  by (induction ds p s rule: is_closed_tour_loop.induct) auto

lemma is_closed_tour_iff: "is_closed_tour p s \<longleftrightarrow> s \<in> set (neighbours p)"
  by (simp add: is_closed_tour_def is_closed_tour_loop_iff neighbours_def)

section \<open>The board along a knight's path\<close>

text \<open>
  \<open>tour_inv b path\<close>: the cells of \<open>path\<close> are distinct cells of the board, the
  \<open>i\<close>-th of them (from 0) holds \<open>i + 1\<close>, every other cell holds 0, and each cell
  of the path is one knight offset from its predecessor.
\<close>

definition knight_path :: "(int \<times> int) list \<Rightarrow> bool" where
  "knight_path path \<longleftrightarrow> (\<forall>i. Suc i < length path \<longrightarrow> path ! Suc i \<in> set (neighbours (path ! i)))"

definition tour_inv :: "board \<Rightarrow> (int \<times> int) list \<Rightarrow> bool" where
  "tour_inv b path \<longleftrightarrow>
     wf_board b \<and> distinct path \<and> (\<forall>p\<in>set path. in_bounds p) \<and>
     (\<forall>i<length path. cell b (path ! i) = int i + 1) \<and>
     (\<forall>p. in_bounds p \<and> p \<notin> set path \<longrightarrow> cell b p = 0) \<and>
     knight_path path"

lemma tour_inv_wf: "tour_inv b path \<Longrightarrow> wf_board b"
  by (simp add: tour_inv_def)

lemma tour_inv_on_path:
  assumes "tour_inv b path" "p \<in> set path"
  shows "0 < cell b p" "in_bounds p"
proof -
  from assms(2) obtain i where "i < length path" "path ! i = p"
    by (auto simp: in_set_conv_nth)
  with assms(1) have "cell b p = int i + 1" by (auto simp: tour_inv_def)
  then show "0 < cell b p" by simp
  from assms show "in_bounds p" by (simp add: tour_inv_def)
qed

lemma tour_inv_start:
  assumes "in_bounds s"
  shows "tour_inv (mark empty_board s 1) [s]"
  using assms
  by (auto simp: tour_inv_def knight_path_def wf_board_mark wf_board_empty cell_mark cell_empty)

lemma tour_inv_extend:
  assumes inv: "tour_inv b path" and ne: "path \<noteq> []"
    and u: "unvisited b m" and k: "m \<in> set (neighbours (last path))"
  shows "tour_inv (mark b m (int (length path) + 1)) (path @ [m])"
proof -
  let ?b = "mark b m (int (length path) + 1)"
  have wf: "wf_board b" using inv by (rule tour_inv_wf)
  have mb: "in_bounds m" and m0: "cell b m = 0" using u by (auto simp: unvisited_def)
  have notin: "m \<notin> set path"
  proof
    assume "m \<in> set path"
    with inv have "0 < cell b m" by (rule tour_inv_on_path)
    with m0 show False by simp
  qed
  have c: "cell ?b q = (if q = m then int (length path) + 1 else cell b q)" if "in_bounds q" for q
    using wf mb that by (rule cell_mark)
  have 1: "wf_board ?b" using wf by (rule wf_board_mark)
  have 2: "distinct (path @ [m])" using inv notin by (simp add: tour_inv_def)
  have 3: "\<forall>p\<in>set (path @ [m]). in_bounds p" using inv mb by (simp add: tour_inv_def)
  have 4: "\<forall>i<length (path @ [m]). cell ?b ((path @ [m]) ! i) = int i + 1"
  proof (intro allI impI)
    fix i assume i: "i < length (path @ [m])"
    show "cell ?b ((path @ [m]) ! i) = int i + 1"
    proof (cases "i < length path")
      case True
      then have mem: "path ! i \<in> set path" by simp
      with notin have "path ! i \<noteq> m" by auto
      moreover from inv mem have "in_bounds (path ! i)" by (rule tour_inv_on_path)
      moreover from inv True have "cell b (path ! i) = int i + 1" by (simp add: tour_inv_def)
      ultimately show ?thesis using True by (simp add: c nth_append)
    next
      case False
      with i have "i = length path" by simp
      then show ?thesis using mb by (simp add: c)
    qed
  qed
  have 5: "\<forall>p. in_bounds p \<and> p \<notin> set (path @ [m]) \<longrightarrow> cell ?b p = 0"
    using inv by (auto simp: c tour_inv_def)
  have 6: "knight_path (path @ [m])"
    unfolding knight_path_def
  proof (intro allI impI)
    fix i assume i: "Suc i < length (path @ [m])"
    show "(path @ [m]) ! Suc i \<in> set (neighbours ((path @ [m]) ! i))"
    proof (cases "Suc i < length path")
      case True
      with inv show ?thesis by (simp add: tour_inv_def knight_path_def nth_append)
    next
      case False
      with i have e: "Suc i = length path" by simp
      then have "i = length path - 1" by simp
      then have "path ! i = last path" using ne by (simp add: last_conv_nth)
      with e k show ?thesis by (simp add: nth_append)
    qed
  qed
  from 1 2 3 4 5 6 show ?thesis unfolding tour_inv_def by blast
qed

lemma mark_unmark:
  assumes v: "is_valid_move nx ny b = Inr True"
    and b1: "board_set b nx ny v = Inr b1"
    and b3: "board_set b1 nx ny 0 = Inr b3"
  shows "b3 = b"
proof -
  note t = is_valid_move_True[OF v]
  from b1 obtain i j where ij: "i < length b" "j < length (b ! i)" "target b (nx, ny) = {(i, j)}"
    "b1 = b[i := (b ! i)[j := v]]" by (rule board_set_Inr)
  from ij(3) t(8) have i: "i = nat nx" and j: "j = nat ny" by auto
  from b3 obtain i' j' where ij': "target b1 (nx, ny) = {(i', j')}" "b3 = b1[i' := (b1 ! i')[j' := 0]]"
    by (rule board_set_Inr)
  have "map length b1 = map length b" using b1 by (rule board_set_lengths)
  then have "target b1 (nx, ny) = target b (nx, ny)" by (rule target_cong)
  with ij' ij(3) have i': "i' = i" and j': "j' = j" by auto
  have "b3 = b[i := (b ! i)[j := 0]]" unfolding ij'(2) i' j' ij(4) using ij(1) by simp
  also have "(b ! i)[j := 0] = b ! i" using t(7) i j by (metis list_update_id)
  also have "b[i := b ! i] = b" by (rule list_update_id)
  finally show ?thesis .
qed

lemma backtrack_failure_restores:
  "backtrack sp x y mc b = Inr (False, b') \<Longrightarrow> b' = b"
  "backtrack_for sp mc ms b = Inr (False, b') \<Longrightarrow>
     (\<forall>m\<in>set ms. is_valid_move (fst m) (snd m) b = Inr True) \<Longrightarrow> b' = b"
proof (induction sp x y mc b and sp mc ms b arbitrary: b' and b' rule: backtrack_backtrack_for.induct)
  case (1 sp x y mc b)
  show ?case
  proof (cases "mc = total_squares")
    case True
    with 1(2) show ?thesis by (simp add: backtrack.simps)
  next
    case False
    with 1(2) obtain ms where ms: "get_sorted_moves x y b = Inr ms"
      and r: "backtrack_for sp mc ms b = Inr (False, b')"
      by (auto simp: backtrack.simps split: sum.splits)
    have "\<forall>m\<in>set ms. is_valid_move (fst m) (snd m) b = Inr True"
      using get_sorted_moves_valid[OF ms] by blast
    with 1(1)[OF False ms r] show ?thesis .
  qed
next
  case (2 sp mc b)
  then show ?case by simp
next
  case (3 sp mc nx ny rest b)
  from 3(3) obtain b1 where b1: "board_set b nx ny (mc + 1) = Inr b1"
    by (auto split: sum.splits)
  with 3(3) obtain found b2 where b2: "backtrack sp nx ny (mc + 1) b1 = Inr (found, b2)"
    by (auto split: sum.splits)
  from 3(3) b1 b2 have nf: "\<not> found" by (auto split: if_splits)
  with 3(3) b1 b2 obtain b3 where b3: "board_set b2 nx ny 0 = Inr b3"
    and r: "backtrack_for sp mc rest b3 = Inr (False, b')"
    by (auto split: sum.splits)
  from b2 nf have "b2 = b1" using 3(1)[OF b1] by simp
  with b3 have "board_set b1 nx ny 0 = Inr b3" by simp
  moreover from 3(4) have "is_valid_move nx ny b = Inr True" by simp
  ultimately have e: "b3 = b" using b1 by (metis mark_unmark)
  from 3(4) have "\<forall>m\<in>set rest. is_valid_move (fst m) (snd m) b3 = Inr True"
    unfolding e by simp
  with 3(2)[OF b1 b2 refl nf b3 r] e show ?case by simp
qed

section \<open>Results of the backtracking search\<close>

lemma unvisited_valid:
  "wf_board b \<Longrightarrow> unvisited b m \<Longrightarrow> is_valid_move (fst m) (snd m) b = Inr True"
  by (simp add: is_valid_move_wf)

lemma sorted_moves_unvisited:
  assumes "wf_board b" "get_sorted_moves x y b = Inr ms" "m \<in> set ms"
  shows "unvisited b m" "m \<in> set (neighbours (x, y))"
  using assms by (auto simp: get_sorted_moves_wf)

lemma backtrack_returns:
  "wf_board b \<Longrightarrow> \<exists>ok b'. backtrack sp x y mc b = Inr (ok, b') \<and> wf_board b'"
  "wf_board b \<Longrightarrow> (\<forall>m\<in>set ms. in_bounds m) \<Longrightarrow>
     \<exists>ok b'. backtrack_for sp mc ms b = Inr (ok, b') \<and> wf_board b'"
proof (induction sp x y mc b and sp mc ms b rule: backtrack_backtrack_for.induct)
  case (1 sp x y mc b)
  show ?case
  proof (cases "mc = total_squares")
    case True
    with 1(2) show ?thesis by (simp add: backtrack.simps)
  next
    case False
    let ?ms = "sort_key (onward_degree b) (filter (unvisited b) (neighbours (x, y)))"
    have ms: "get_sorted_moves x y b = Inr ?ms" using 1(2) by (rule get_sorted_moves_wf)
    have "\<forall>m\<in>set ?ms. in_bounds m" by (auto simp: unvisited_def)
    with 1(1)[OF False ms 1(2)] show ?thesis using False ms by (simp add: backtrack.simps)
  qed
next
  case (2 sp mc b)
  then show ?case by auto
next
  case (3 sp mc nx ny rest b)
  from 3(3,4) have b1: "board_set b nx ny (mc + 1) = Inr (mark b (nx, ny) (mc + 1))"
    by (simp add: board_set_wf)
  have wf1: "wf_board (mark b (nx, ny) (mc + 1))" using 3(3) by (rule wf_board_mark)
  from 3(1)[OF b1 wf1] obtain found b2
    where b2: "backtrack sp nx ny (mc + 1) (mark b (nx, ny) (mc + 1)) = Inr (found, b2)"
      and wf2: "wf_board b2" by blast
  show ?case
  proof (cases found)
    case True
    with b1 b2 wf2 show ?thesis by auto
  next
    case False
    from wf2 3(4) have b3: "board_set b2 nx ny 0 = Inr (mark b2 (nx, ny) 0)"
      by (simp add: board_set_wf)
    have wf3: "wf_board (mark b2 (nx, ny) 0)" using wf2 by (rule wf_board_mark)
    from 3(4) have "\<forall>m\<in>set rest. in_bounds m" by simp
    with 3(2)[OF b1 b2 refl False b3 wf3] show ?thesis using b1 b2 b3 False by simp
  qed
qed

lemma backtrack_success_tour:
  "backtrack sp x y mc b = Inr (True, b') \<Longrightarrow> tour_inv b path \<Longrightarrow> path \<noteq> [] \<Longrightarrow>
     last path = (x, y) \<Longrightarrow> mc = int (length path) \<Longrightarrow>
     \<exists>ext. tour_inv b' (path @ ext) \<and> int (length (path @ ext)) = total_squares \<and>
           is_closed_tour (last (path @ ext)) sp"
  "backtrack_for sp mc ms b = Inr (True, b') \<Longrightarrow> tour_inv b path \<Longrightarrow> path \<noteq> [] \<Longrightarrow>
     mc = int (length path) \<Longrightarrow>
     (\<forall>m\<in>set ms. unvisited b m \<and> m \<in> set (neighbours (last path))) \<Longrightarrow>
     \<exists>ext. tour_inv b' (path @ ext) \<and> int (length (path @ ext)) = total_squares \<and>
           is_closed_tour (last (path @ ext)) sp"
proof (induction sp x y mc b and sp mc ms b arbitrary: b' path and b' path
    rule: backtrack_backtrack_for.induct)
  case (1 sp x y mc b)
  show ?case
  proof (cases "mc = total_squares")
    case True
    with 1(2) have "b' = b" "is_closed_tour (x, y) sp" by (simp_all add: backtrack.simps)
    with 1(3,5,6) True have "tour_inv b' (path @ []) \<and> int (length (path @ [])) = total_squares \<and>
           is_closed_tour (last (path @ [])) sp" by simp
    then show ?thesis by blast
  next
    case False
    have wf: "wf_board b" using 1(3) by (rule tour_inv_wf)
    from False 1(2) obtain ms where ms: "get_sorted_moves x y b = Inr ms"
      and r: "backtrack_for sp mc ms b = Inr (True, b')"
      by (auto simp: backtrack.simps split: sum.splits)
    have "\<forall>m\<in>set ms. unvisited b m \<and> m \<in> set (neighbours (last path))"
      using sorted_moves_unvisited[OF wf ms] 1(5) by simp
    with 1(1)[OF False ms r 1(3,4,6)] show ?thesis .
  qed
next
  case (2 sp mc b)
  then show ?case by simp
next
  case (3 sp mc nx ny rest b)
  have wf: "wf_board b" using 3(4) by (rule tour_inv_wf)
  from 3(7) have u: "unvisited b (nx, ny)" and k: "(nx, ny) \<in> set (neighbours (last path))"
    by simp_all
  then have ib: "in_bounds (nx, ny)" by (simp add: unvisited_def)
  let ?b1 = "mark b (nx, ny) (mc + 1)"
  have b1: "board_set b nx ny (mc + 1) = Inr ?b1" using wf ib by (rule board_set_wf)
  have inv1: "tour_inv ?b1 (path @ [(nx, ny)])"
    unfolding 3(6) using 3(4,5) u k by (rule tour_inv_extend)
  from 3(3) b1 obtain found b2 where b2: "backtrack sp nx ny (mc + 1) ?b1 = Inr (found, b2)"
    by (auto split: sum.splits)
  show ?case
  proof (cases found)
    case True
    with 3(3) b1 b2 have "b' = b2" by simp
    with b2 True have "backtrack sp nx ny (mc + 1) ?b1 = Inr (True, b')" by simp
    from 3(1)[OF b1 this inv1] 3(6)
    obtain ext where "tour_inv b' ((path @ [(nx, ny)]) @ ext)"
      "int (length ((path @ [(nx, ny)]) @ ext)) = total_squares"
      "is_closed_tour (last ((path @ [(nx, ny)]) @ ext)) sp" by auto
    then have "tour_inv b' (path @ ((nx, ny) # ext)) \<and>
       int (length (path @ ((nx, ny) # ext))) = total_squares \<and>
       is_closed_tour (last (path @ ((nx, ny) # ext))) sp" by simp
    then show ?thesis by blast
  next
    case False
    with b2 have "backtrack sp nx ny (mc + 1) ?b1 = Inr (False, b2)" by simp
    then have e2: "b2 = ?b1" by (rule backtrack_failure_restores(1))
    from 3(3) b1 b2 False obtain b3 where b3: "board_set b2 nx ny 0 = Inr b3"
      and r: "backtrack_for sp mc rest b3 = Inr (True, b')"
      by (auto split: sum.splits)
    have "is_valid_move nx ny b = Inr True" using unvisited_valid[OF wf u] by simp
    moreover from b3 e2 have "board_set ?b1 nx ny 0 = Inr b3" by simp
    ultimately have e3: "b3 = b" using b1 by (metis mark_unmark)
    from 3(7) have "\<forall>m\<in>set rest. unvisited b3 m \<and> m \<in> set (neighbours (last path))"
      unfolding e3 by simp
    with 3(2)[OF b1 b2 refl False b3 r _ 3(5,6)] 3(4) e3 show ?thesis by simp
  qed
qed

section \<open>The values on a board\<close>

text \<open>
  \<open>all_cells\<close> lists the 64 positions of the board, row by row, as
  \<open>display_board\<close> walks them. Along a path of \<open>n\<close> cells the board holds the values
  1 to \<open>n\<close> once each and \<open>64 - n\<close> zeros.
\<close>

definition all_cells :: "(int \<times> int) list" where
  "all_cells = List.product [0..BOARD_SIZE - 1] [0..BOARD_SIZE - 1]"

lemma set_all_cells: "set all_cells = {p. in_bounds p}"
  by (auto simp: all_cells_def in_bounds_def BOARD_SIZE_def)

lemma distinct_all_cells: "distinct all_cells"
  by (simp add: all_cells_def distinct_product)

lemma length_all_cells: "length all_cells = 64"
  by (simp add: all_cells_def BOARD_SIZE_def)

lemma nat_upto_8: "map nat [0..7] = [0..<8]"
  by code_simp

lemma list_of_8:
  assumes "length xs = 8"
  shows "xs = map (\<lambda>i. xs ! nat i) [0..7]"
proof -
  from assms have "xs = map (nth xs) [0..<8]" by (metis map_nth)
  also have "\<dots> = map (nth xs) (map nat [0..7])" by (simp only: nat_upto_8)
  finally show ?thesis by (simp add: comp_def)
qed

lemma concat_board:
  assumes "wf_board b"
  shows "concat b = map (cell b) all_cells"
proof -
  have rows: "b ! nat i = map (\<lambda>j. cell b (i, j)) [0..7]" if "i \<in> set [0..7]" for i
  proof -
    from that have "0 \<le> i" "i \<le> 7" by simp_all
    then have "nat i < 8" by linarith
    with assms have "length (b ! nat i) = 8" by (rule wf_board_rows)
    then have "b ! nat i = map (\<lambda>j. b ! nat i ! nat j) [0..7]" by (rule list_of_8)
    then show ?thesis by (simp add: cell_def)
  qed
  have "length b = 8" using assms by (rule wf_board_rows)
  then have "b = map (\<lambda>i. b ! nat i) [0..7]" by (rule list_of_8)
  also have "\<dots> = map (\<lambda>i. map (\<lambda>j. cell b (i, j)) [0..7]) [0..7]"
    using rows by (rule map_cong[OF refl])
  finally have "concat b = concat (map (\<lambda>i. map (\<lambda>j. cell b (i, j)) [0..7]) [0..7])"
    by simp
  also have "\<dots> = map (cell b) all_cells"
    by (simp add: all_cells_def BOARD_SIZE_def product_concat_map map_concat comp_def)
  finally show ?thesis .
qed

lemma tour_inv_values:
  assumes inv: "tour_inv b path"
  shows "mset (concat b) =
           mset (map (\<lambda>i. int i + 1) [0..<length path]) + replicate_mset (64 - length path) 0"
    and "length path \<le> 64"
proof -
  let ?out = "filter (\<lambda>p. p \<notin> set path) all_cells"
  have wf: "wf_board b" using inv by (rule tour_inv_wf)
  have d: "distinct path" and sub: "set path \<subseteq> set all_cells"
    using inv by (auto simp: tour_inv_def set_all_cells)
  have seq: "set (filter (\<lambda>p. p \<in> set path) all_cells) = set path" using sub by auto
  have "distinct (filter (\<lambda>p. p \<in> set path) all_cells)"
    using distinct_all_cells by (rule distinct_filter)
  from set_eq_iff_mset_eq_distinct[OF this d, THEN iffD1, OF seq]
  have inp: "mset (filter (\<lambda>p. p \<in> set path) all_cells) = mset path" .
  have part: "mset all_cells = mset path + mset ?out"
    unfolding inp[symmetric] mset_filter by (rule multiset_partition)
  have "size (mset (filter (\<lambda>p. p \<in> set path) all_cells)) = size (mset path)"
    by (simp only: inp)
  then have "length (filter (\<lambda>p. p \<in> set path) all_cells) = length path"
    by (simp only: size_mset)
  with sum_length_filter_compl[of "\<lambda>p. p \<in> set path" all_cells]
  have len: "64 = length path + length ?out" by (simp only: length_all_cells)
  then show "length path \<le> 64" by simp
  have onp: "map (cell b) path = map (\<lambda>i. int i + 1) [0..<length path]"
    using inv by (intro nth_equalityI) (auto simp: tour_inv_def)
  have "\<forall>p\<in>set ?out. cell b p = 0" using inv by (auto simp: tour_inv_def set_all_cells)
  then have "map (cell b) ?out = map (\<lambda>_. 0) ?out"
    by (intro map_cong[OF refl]) blast
  then have "map (cell b) ?out = replicate (length ?out) 0"
    by (simp only: map_replicate_const)
  moreover from len have "length ?out = 64 - length path" by linarith
  ultimately have outp: "mset (map (cell b) ?out) = replicate_mset (64 - length path) 0"
    by (simp only: mset_replicate)
  have "mset (concat b) = image_mset (cell b) (mset all_cells)"
    by (simp add: concat_board[OF wf])
  also have "\<dots> = mset (map (cell b) path) + mset (map (cell b) ?out)"
    unfolding part by simp
  finally show "mset (concat b) =
           mset (map (\<lambda>i. int i + 1) [0..<length path]) + replicate_mset (64 - length path) 0"
    unfolding onp outp .
qed

lemma upto_1_64: "map (\<lambda>i. int i + 1) [0..<64] = [1..64]"
  by code_simp

section \<open>Two concrete runs\<close>

text \<open>
  \<open>corner_tour\<close> is the board the search returns from the corner \<open>(0, 0)\<close>.
  \<open>dead_end_board\<close> is the board of the search from \<open>(1, 6)\<close> on entry to the call
  \<open>backtrack(2, 4, 62)\<close>, which fails: the two cells left, \<open>(0, 3)\<close> and
  \<open>(2, 2)\<close>, are visited in this order and the closure check fails on \<open>(2, 2)\<close>.
\<close>

definition corner_tour :: board where
  "corner_tour =
    [[1, 50, 15, 32, 61, 28, 13, 30], [16, 33, 64, 55, 14, 31, 60, 27],
     [51, 2, 49, 44, 57, 62, 29, 12], [34, 17, 56, 63, 54, 47, 26, 59],
     [3, 52, 45, 48, 43, 58, 11, 40], [18, 35, 20, 53, 46, 41, 8, 25],
     [21, 4, 37, 42, 23, 6, 39, 10], [36, 19, 22, 5, 38, 9, 24, 7]]"

definition dead_end_board :: board where
  "dead_end_board =
    [[10, 39, 24, 0, 12, 41, 14, 49], [25, 56, 11, 40, 23, 48, 1, 42],
     [38, 9, 0, 47, 62, 13, 50, 15], [57, 26, 55, 30, 51, 22, 43, 2],
     [8, 37, 46, 61, 44, 31, 16, 21], [27, 58, 29, 54, 19, 52, 3, 32],
     [36, 7, 60, 45, 34, 5, 20, 17], [59, 28, 35, 6, 53, 18, 33, 4]]"

lemma backtracking_corner_run: "KnightsTourBacktracking (0, 0) = Inr (True, corner_tour)"
  by code_simp

lemma backtrack_dead_end_run: "backtrack (1, 6) 2 4 62 dead_end_board = Inr (False, dead_end_board)"
  by code_simp

lemma backtracking_success_path:
  assumes "in_bounds start" "KnightsTourBacktracking start = Inr (True, board)"
  shows "\<exists>ext. tour_inv board (start # ext) \<and> length (start # ext) = 64 \<and>
           is_closed_tour (last (start # ext)) start"
proof -
  obtain x y where s: "start = (x, y)" by (cases start)
  let ?b0 = "mark empty_board start 1"
  have b0: "board_set empty_board x y 1 = Inr ?b0"
    using wf_board_empty assms(1) unfolding s by (rule board_set_wf)
  with assms(2) have r: "backtrack start x y 1 ?b0 = Inr (True, board)"
    by (simp add: KnightsTourBacktracking_def s)
  have inv: "tour_inv ?b0 [start]" using assms(1) by (rule tour_inv_start)
  have ne: "[start] \<noteq> []" by simp
  have l: "last [start] = (x, y)" by (simp add: s)
  have m: "(1::int) = int (length [start])" by simp
  from backtrack_success_tour(1)[OF r inv ne l m]
  obtain ext where e: "tour_inv board ([start] @ ext)"
    "int (length ([start] @ ext)) = total_squares"
    "is_closed_tour (last ([start] @ ext)) start" by blast
  from e(2) have "length (start # ext) = 64" by (simp add: total_squares_def BOARD_SIZE_def)
  with e(1,3) have "tour_inv board (start # ext) \<and> length (start # ext) = 64 \<and>
           is_closed_tour (last (start # ext)) start" by simp
  then show ?thesis by blast
qed

section \<open>Backtracking search: properties\<close>

lemma full_tour_values:
  assumes "tour_inv board path" "length path = 64"
  shows "mset (concat board) = mset [1..64]"
proof -
  from tour_inv_values(1)[OF assms(1)]
  have "mset (concat board) = mset (map (\<lambda>i. int i + 1) [0..<64]) + replicate_mset 0 0"
    by (simp only: assms(2) diff_self_eq_0)
  then show ?thesis by (simp only: upto_1_64 replicate_mset_0 add.right_neutral)
qed

lemma backtracking_success_values:
  assumes "in_bounds start" "KnightsTourBacktracking start = Inr (True, board)"
  shows "mset (concat board) = mset [1..64]"
proof -
  from backtracking_success_path[OF assms] obtain ext
    where "tour_inv board (start # ext)" "length (start # ext) = 64" by blast
  then show ?thesis by (rule full_tour_values)
qed

text \<open>
  Claim C1. Whenever the backtracking search from an in-bounds start reports success,
  the entries of the returned board are the numbers 1 to 64, each once; the cells taken
  in the order of their move index start at the start cell, each is one knight offset
  from the one before, and the closure check holds between the cell holding 64 and the
  start.
\<close>

theorem backtracking_success_closed_tour:
  assumes "in_bounds start" and "KnightsTourBacktracking start = Inr (True, board)"
  shows "mset (concat board) = mset [1..64] \<and>
         (\<exists>path. length path = 64 \<and> hd path = start \<and>
            (\<forall>i<64. in_bounds (path ! i) \<and> cell board (path ! i) = int i + 1) \<and>
            knight_path path \<and> is_closed_tour (path ! 63) start)"
proof
  show "mset (concat board) = mset [1..64]" using assms by (rule backtracking_success_values)
next
  from backtracking_success_path[OF assms] obtain ext
    where inv: "tour_inv board (start # ext)" and len: "length (start # ext) = 64"
      and closed: "is_closed_tour (last (start # ext)) start" by blast
  let ?path = "start # ext"
  have 1: "\<forall>i<64. in_bounds (?path ! i) \<and> cell board (?path ! i) = int i + 1"
  proof (intro allI impI)
    fix i :: nat assume "i < 64"
    with len have i: "i < length ?path" by simp
    then have "?path ! i \<in> set ?path" by (rule nth_mem)
    with inv have "in_bounds (?path ! i)" by (rule tour_inv_on_path)
    moreover from inv i have "cell board (?path ! i) = int i + 1"
      unfolding tour_inv_def by blast
    ultimately show "in_bounds (?path ! i) \<and> cell board (?path ! i) = int i + 1" ..
  qed
  have 2: "knight_path ?path" using inv by (simp add: tour_inv_def)
  have "last ?path = ?path ! (length ?path - 1)" by (rule last_conv_nth) simp
  with len closed have 3: "is_closed_tour (?path ! 63) start" by simp
  have "length ?path = 64 \<and> hd ?path = start \<and>
            (\<forall>i<64. in_bounds (?path ! i) \<and> cell board (?path ! i) = int i + 1) \<and>
            knight_path ?path \<and> is_closed_tour (?path ! 63) start"
    using len 1 2 3 by simp
  then show "\<exists>path. length path = 64 \<and> hd path = start \<and>
            (\<forall>i<64. in_bounds (path ! i) \<and> cell board (path ! i) = int i + 1) \<and>
            knight_path path \<and> is_closed_tour (path ! 63) start" by (rule exI)
qed

theorem backtracking_success_closed_tour_witness:
  "in_bounds (0, 0) \<and> KnightsTourBacktracking (0, 0) = Inr (True, corner_tour) \<and>
   mset (concat corner_tour) = mset [1..64] \<and>
   (\<exists>path. length path = 64 \<and> hd path = (0, 0) \<and>
      (\<forall>i<64. in_bounds (path ! i) \<and> cell corner_tour (path ! i) = int i + 1) \<and>
      knight_path path \<and> is_closed_tour (path ! 63) (0, 0))"
proof -
  have b: "in_bounds (0, 0)" by (simp add: in_bounds_def BOARD_SIZE_def)
  from backtracking_success_closed_tour[OF b backtracking_corner_run] b backtracking_corner_run
  show ?thesis by blast
qed

text \<open>
  Claim C2. From the corner \<open>(0, 0)\<close> the backtracking search succeeds; the board it
  returns holds each of 1 to 64 exactly once, and 64 sits on \<open>(1, 2)\<close>, one knight
  offset from the corner.
\<close>

theorem backtracking_from_corner:
  "KnightsTourBacktracking (0, 0) = Inr (True, corner_tour) \<and>
   mset (concat corner_tour) = mset [1..64] \<and>
   cell corner_tour (1, 2) = 64 \<and> is_closed_tour (1, 2) (0, 0)"
proof -
  have b: "in_bounds (0, 0)" by (simp add: in_bounds_def BOARD_SIZE_def)
  have "mset (concat corner_tour) = mset [1..64]"
    using b backtracking_corner_run by (rule backtracking_success_values)
  moreover have "cell corner_tour (1, 2) = 64" by (simp add: cell_def corner_tour_def)
  moreover have "is_closed_tour (1, 2) (0, 0)" by (simp add: is_closed_tour_def KNIGHT_MOVES_def)
  ultimately show ?thesis using backtracking_corner_run by blast
qed

lemma py_index_8_mod:
  assumes "py_index i 8 = Some k"
  shows "k = nat (i mod 8)" "0 \<le> i mod 8" "i mod 8 < 8"
proof -
  from assms consider "0 \<le> i" "i < 8" "k = nat i" | "- 8 \<le> i" "i < 0" "k = nat (i + 8)"
    by (auto simp: py_index_def split: if_splits)
  then show "k = nat (i mod 8)"
  proof cases
    case 1
    then show ?thesis by simp
  next
    case 2
    then have "i mod 8 = i + 8" by presburger
    with 2 show ?thesis by simp
  qed
  show "0 \<le> i mod 8" "i mod 8 < 8" by simp_all
qed

lemma board_set_empty_board:
  assumes "board_set empty_board sx sy v = Inr b0"
  shows "in_bounds (sx mod 8, sy mod 8)" "b0 = mark empty_board (sx mod 8, sy mod 8) v"
proof -
  show "in_bounds (sx mod 8, sy mod 8)" by (simp add: in_bounds_def BOARD_SIZE_def)
  have len: "length empty_board = 8" by (simp add: empty_board_def BOARD_SIZE_def)
  from assms obtain i where i: "py_index sx 8 = Some i"
    by (auto simp: board_set_def len split: option.splits)
  then have i8: "i < 8" and im: "i = nat (sx mod 8)"
    by (auto dest: py_index_less py_index_8_mod(1))
  then have row: "length (empty_board ! i) = 8" using wf_board_rows(2)[OF wf_board_empty] by simp
  from assms i obtain j where j: "py_index sy 8 = Some j"
    and b0: "b0 = empty_board[i := (empty_board ! i)[j := v]]"
    by (auto simp: board_set_def setitem_def len row split: option.splits)
  from j have "j = nat (sy mod 8)" by (rule py_index_8_mod(1))
  with b0 im show "b0 = mark empty_board (sx mod 8, sy mod 8) v" by (simp add: mark_def)
qed

lemma in_bounds_mod: "in_bounds (sx, sy) \<Longrightarrow> (sx mod 8, sy mod 8) = (sx, sy)"
  by (simp add: in_bounds_def BOARD_SIZE_def)

lemma backtracking_edge_run:
  "KnightsTourBacktracking (4, - 8) = Inr (False, mark empty_board (4, 0) 1)"
  by code_simp

text \<open>
  Claim C4. A call of \<open>backtrack\<close> that fails returns the board it was given: every
  cell it marked has been reset to 0. So whenever the whole search fails, the returned
  board is the empty board with the one write \<open>board[x][y] = 1\<close> of the start: it
  holds 1 on the cell the start indexes and 0 everywhere else. For an in-bounds start
  that cell is the start cell itself; Python also accepts the indices -8 to -1, which
  count from the end.
\<close>

theorem backtracking_failure_board:
  "(backtrack sp x y mc b = Inr (False, b') \<longrightarrow> b' = b) \<and>
   (KnightsTourBacktracking (sx, sy) = Inr (False, board) \<longrightarrow>
      board_set empty_board sx sy 1 = Inr board \<and> wf_board board \<and>
      (\<forall>p. in_bounds p \<longrightarrow> cell board p = (if p = (sx mod 8, sy mod 8) then 1 else 0))) \<and>
   (in_bounds (sx, sy) \<longrightarrow> (sx mod 8, sy mod 8) = (sx, sy))"
proof (intro conjI impI)
  assume "backtrack sp x y mc b = Inr (False, b')"
  then show "b' = b" by (rule backtrack_failure_restores(1))
next
  assume a: "KnightsTourBacktracking (sx, sy) = Inr (False, board)"
  then obtain b0 where b0: "board_set empty_board sx sy 1 = Inr b0"
    and r: "backtrack (sx, sy) sx sy 1 b0 = Inr (False, board)"
    by (auto simp: KnightsTourBacktracking_def split: sum.splits)
  from r have e: "board = b0" by (rule backtrack_failure_restores(1))
  note s = board_set_empty_board[OF b0]
  show "board_set empty_board sx sy 1 = Inr board" using b0 e by simp
  show "wf_board board" unfolding e s(2) using wf_board_empty by (rule wf_board_mark)
  show "\<forall>p. in_bounds p \<longrightarrow> cell board p = (if p = (sx mod 8, sy mod 8) then 1 else 0)"
    unfolding e s(2) using s(1) by (simp add: cell_mark wf_board_empty cell_empty)
next
  assume "in_bounds (sx, sy)"
  then show "(sx mod 8, sy mod 8) = (sx, sy)" by (rule in_bounds_mod)
qed

theorem backtracking_failure_board_witness:
  "(\<exists>b'. backtrack (1, 6) 2 4 62 dead_end_board = Inr (False, b') \<and> b' = dead_end_board) \<and>
   KnightsTourBacktracking (4, - 8) = Inr (False, mark empty_board (4, 0) 1) \<and>
   board_set empty_board 4 (- 8) 1 = Inr (mark empty_board (4, 0) 1) \<and>
   wf_board (mark empty_board (4, 0) 1) \<and>
   cell (mark empty_board (4, 0) 1) (4, 0) = 1 \<and>
   cell (mark empty_board (4, 0) 1) (4, 1) = 0 \<and>
   in_bounds (4, 0) \<and> (4 mod 8, 0 mod 8) = (4::int, 0::int)"
proof -
  note t = backtracking_failure_board[of "(1, 6)" 2 4 62 dead_end_board dead_end_board
      4 "- 8" "mark empty_board (4, 0) 1"]
  have m: "((4::int) mod 8, (- 8::int) mod 8) = (4, 0)" by simp
  have ib: "in_bounds (4, 0)" "in_bounds (4, 1)" by (simp_all add: in_bounds_def BOARD_SIZE_def)
  from t backtrack_dead_end_run
  have 1: "\<exists>b'. backtrack (1, 6) 2 4 62 dead_end_board = Inr (False, b') \<and> b' = dead_end_board"
    by blast
  from t backtracking_edge_run
  have 2: "board_set empty_board 4 (- 8) 1 = Inr (mark empty_board (4, 0) 1)"
    "wf_board (mark empty_board (4, 0) 1)"
    and c: "\<forall>p. in_bounds p \<longrightarrow> cell (mark empty_board (4, 0) 1) p
              = (if p = ((4::int) mod 8, (- 8::int) mod 8) then 1 else 0)"
    by blast+
  from c ib have 3: "cell (mark empty_board (4, 0) 1) (4, 0) = 1"
    "cell (mark empty_board (4, 0) 1) (4, 1) = 0" unfolding m by simp_all
  from backtracking_failure_board[of _ _ _ _ _ _ 4 0] ib(1)
  have 4: "(4 mod 8, 0 mod 8) = (4::int, 0::int)" by simp
  from 1 2 3 4 ib(1) backtracking_edge_run show ?thesis by blast
qed

section \<open>Runs of the randomized search\<close>

text \<open>
  \<open>visited_count\<close> is the count the program prints with a board:
  \<open>sum(1 for row in final_board for cell in row if cell > 0)\<close>.

  \<open>lv_steps s k s'\<close>: starting the \<open>while\<close> loop of \<open>KnightsTourLasVegas\<close> in
  state \<open>s\<close> (generator, current cell, move count, board), its state after \<open>k\<close>
  further iterations that made a move is \<open>s'\<close>. The states of a run are the states
  reached from the one after the initial mark; the loop function returns one of them.
\<close>

declare KnightsTourLasVegas_loop.simps [simp del]

definition visited_count :: "board \<Rightarrow> nat" where
  "visited_count board = length (filter (\<lambda>v. 0 < v) (concat board))"

inductive lv_steps ::
  "(nat \<Rightarrow> nat) \<times> int \<times> int \<times> int \<times> board \<Rightarrow> nat \<Rightarrow> (nat \<Rightarrow> nat) \<times> int \<times> int \<times> int \<times> board \<Rightarrow> bool" where
  lv_steps_0: "lv_steps s 0 s"
| lv_steps_Suc:
  "move_count < total_squares \<Longrightarrow>
   get_valid_moves current_x current_y board = Inr valid_moves \<Longrightarrow>
   valid_moves \<noteq> [] \<Longrightarrow>
   random_choice (rnd 0) valid_moves = Inr (next_x, next_y) \<Longrightarrow>
   board_set board next_x next_y (move_count + 1) = Inr board' \<Longrightarrow>
   lv_steps (\<lambda>i. rnd (Suc i), next_x, next_y, move_count + 1, board') k s' \<Longrightarrow>
   lv_steps (rnd, current_x, current_y, move_count, board) (Suc k) s'"

definition lv_inv :: "(nat \<Rightarrow> nat) \<times> int \<times> int \<times> int \<times> board \<Rightarrow> (int \<times> int) list \<Rightarrow> bool" where
  "lv_inv s path \<longleftrightarrow>
     (case s of (rnd, x, y, mc, b) \<Rightarrow>
        tour_inv b path \<and> path \<noteq> [] \<and> last path = (x, y) \<and> mc = int (length path))"

lemma random_choice_mem:
  "random_choice r seq = Inr m \<Longrightarrow> m \<in> set seq"
  by (auto simp: random_choice_def split: if_splits)

lemma random_choice_returns:
  "seq \<noteq> [] \<Longrightarrow> \<exists>m. random_choice r seq = Inr m"
  by (simp add: random_choice_def)

lemma upto_from_1: "map (\<lambda>i. int i + 1) [0..<n] = [1..int n]"
proof (induction n)
  case 0
  show ?case by simp
next
  case (Suc n)
  have "[1..int (Suc n)] = [1..int n] @ [int n + 1]"
    using upto_rec2[of 1 "int (Suc n)"] by simp
  with Suc show ?case by simp
qed

lemma tour_inv_visited:
  assumes "tour_inv b path"
  shows "mset (filter (\<lambda>v. 0 < v) (concat b)) = mset [1..int (length path)]"
    and "visited_count b = length path"
proof -
  let ?P = "\<lambda>v::int. 0 < v"
  let ?xs = "map (\<lambda>i. int i + 1) [0..<length path]"
  have all: "filter ?P ?xs = ?xs" by (rule filter_True) auto
  have "mset (filter ?P (concat b)) = filter_mset ?P (mset (concat b))" by (simp only: mset_filter)
  also have "\<dots> = filter_mset ?P (mset ?xs) + filter_mset ?P (replicate_mset (64 - length path) 0)"
    by (simp only: tour_inv_values(1)[OF assms] filter_union_mset)
  also have "filter_mset ?P (mset ?xs) = mset (filter ?P ?xs)" by (simp only: mset_filter)
  also have "filter_mset ?P (replicate_mset (64 - length path) 0) = {#}" by simp
  finally have e: "mset (filter ?P (concat b)) = mset ?xs" by (simp only: all add.right_neutral)
  then show "mset (filter ?P (concat b)) = mset [1..int (length path)]"
    by (simp only: upto_from_1)
  from e have "size (mset (filter ?P (concat b))) = size (mset ?xs)" by (simp only:)
  then have "length (filter ?P (concat b)) = length ?xs" by (simp only: size_mset)
  then show "visited_count b = length path" by (simp add: visited_count_def)
qed

lemma lv_steps_inv:
  "lv_steps s k s' \<Longrightarrow> lv_inv s path \<Longrightarrow> \<exists>ext. lv_inv s' (path @ ext) \<and> length ext = k"
proof (induction arbitrary: path rule: lv_steps.induct)
  case (lv_steps_0 s)
  then have "lv_inv s (path @ []) \<and> length ([] :: (int \<times> int) list) = 0" by simp
  then show ?case by blast
next
  case (lv_steps_Suc move_count current_x current_y board valid_moves rnd next_x next_y board' k s')
  from lv_steps_Suc.prems have inv: "tour_inv board path" and ne: "path \<noteq> []"
    and l: "last path = (current_x, current_y)" and mc: "move_count = int (length path)"
    by (simp_all add: lv_inv_def)
  have wf: "wf_board board" using inv by (rule tour_inv_wf)
  from lv_steps_Suc.hyps(2) have vm: "valid_moves = filter (unvisited board) (neighbours (current_x, current_y))"
    by (simp add: get_valid_moves_wf[OF wf])
  from lv_steps_Suc.hyps(4) have "(next_x, next_y) \<in> set valid_moves" by (rule random_choice_mem)
  with vm l have u: "unvisited board (next_x, next_y)"
    and k: "(next_x, next_y) \<in> set (neighbours (last path))" by simp_all
  from u have "in_bounds (next_x, next_y)" by (simp add: unvisited_def)
  with wf lv_steps_Suc.hyps(5) have b': "board' = mark board (next_x, next_y) (move_count + 1)"
    by (simp add: board_set_wf)
  have "tour_inv board' (path @ [(next_x, next_y)])"
    unfolding b' mc using inv ne u k by (rule tour_inv_extend)
  then have "lv_inv (\<lambda>i. rnd (Suc i), next_x, next_y, move_count + 1, board') (path @ [(next_x, next_y)])"
    using mc by (simp add: lv_inv_def)
  from lv_steps_Suc.IH[OF this] obtain ext
    where "lv_inv s' ((path @ [(next_x, next_y)]) @ ext)" "length ext = k" by blast
  then have "lv_inv s' (path @ ((next_x, next_y) # ext)) \<and> length ((next_x, next_y) # ext) = Suc k"
    by simp
  then show ?case by blast
qed

lemma lv_loop_steps:
  "KnightsTourLasVegas_loop rnd x y mc b = Inr (x', y', mc', b') \<Longrightarrow>
     \<exists>k rnd'. lv_steps (rnd, x, y, mc, b) k (rnd', x', y', mc', b')"
proof (induction rnd x y mc b rule: KnightsTourLasVegas_loop.induct)
  case (1 rnd x y mc b)
  show ?case
  proof (cases "mc < total_squares")
    case False
    with 1(2) have "(x', y', mc', b') = (x, y, mc, b)"
      by (simp add: KnightsTourLasVegas_loop.simps)
    then have "lv_steps (rnd, x, y, mc, b) 0 (rnd, x', y', mc', b')" by (simp add: lv_steps_0)
    then show ?thesis by blast
  next
    case True
    with 1(2) obtain vm where vm: "get_valid_moves x y b = Inr vm"
      by (auto simp: KnightsTourLasVegas_loop.simps[of rnd x y mc b] split: sum.splits)
    show ?thesis
    proof (cases "vm = []")
      case e: True
      with True 1(2) vm have "(x', y', mc', b') = (x, y, mc, b)"
        by (simp add: KnightsTourLasVegas_loop.simps[of rnd x y mc b])
      then have "lv_steps (rnd, x, y, mc, b) 0 (rnd, x', y', mc', b')" by (simp add: lv_steps_0)
      then show ?thesis by blast
    next
      case ne: False
      with True 1(2) vm obtain nx ny b1 where ch: "random_choice (rnd 0) vm = Inr (nx, ny)"
        and b1: "board_set b nx ny (mc + 1) = Inr b1"
        and r: "KnightsTourLasVegas_loop (\<lambda>i. rnd (Suc i)) nx ny (mc + 1) b1 = Inr (x', y', mc', b')"
        by (auto simp: KnightsTourLasVegas_loop.simps[of rnd x y mc b] split: sum.splits)
      from 1(1)[OF True vm ne ch refl b1 r] obtain k rnd'
        where "lv_steps (\<lambda>i. rnd (Suc i), nx, ny, mc + 1, b1) k (rnd', x', y', mc', b')" by blast
      with True vm ne ch b1 have "lv_steps (rnd, x, y, mc, b) (Suc k) (rnd', x', y', mc', b')"
        by (rule lv_steps_Suc)
      then show ?thesis by blast
    qed
  qed
qed

lemma lv_loop_returns:
  "wf_board b \<Longrightarrow> \<exists>r. KnightsTourLasVegas_loop rnd x y mc b = Inr r"
proof (induction rnd x y mc b rule: KnightsTourLasVegas_loop.induct)
  case (1 rnd x y mc b)
  let ?vm = "filter (unvisited b) (neighbours (x, y))"
  have vm: "get_valid_moves x y b = Inr ?vm" using 1(2) by (rule get_valid_moves_wf)
  show ?case
  proof (cases "mc < total_squares \<and> ?vm \<noteq> []")
    case False
    then show ?thesis using vm by (auto simp: KnightsTourLasVegas_loop.simps[of rnd x y mc b])
  next
    case True
    then obtain m where ch: "random_choice (rnd 0) ?vm = Inr m"
      using random_choice_returns by blast
    obtain nx ny where m: "m = (nx, ny)" by (cases m)
    from ch have "m \<in> set ?vm" by (rule random_choice_mem)
    then have ib: "in_bounds (nx, ny)" by (simp add: m unvisited_def)
    with 1(2) have b1: "board_set b nx ny (mc + 1) = Inr (mark b (nx, ny) (mc + 1))"
      by (rule board_set_wf)
    have "wf_board (mark b (nx, ny) (mc + 1))" using 1(2) by (rule wf_board_mark)
    from 1(1)[OF _ vm _ ch[unfolded m] refl b1 this] True
    show ?thesis using vm ch b1 by (simp add: KnightsTourLasVegas_loop.simps[of rnd x y mc b] m)
  qed
qed

definition stuck_board :: board where
  "stuck_board =
    [[1, 0, 0, 0, 0, 0, 0, 0], [0, 0, 0, 0, 0, 0, 0, 0],
     [0, 2, 0, 0, 0, 0, 0, 0], [0, 0, 0, 0, 0, 0, 0, 0],
     [0, 0, 3, 0, 5, 0, 7, 0], [0, 0, 0, 0, 0, 0, 10, 0],
     [0, 0, 0, 4, 0, 6, 0, 8], [0, 0, 0, 0, 0, 9, 0, 11]]"

lemma las_vegas_first_choice_run:
  "KnightsTourLasVegas (\<lambda>_. 0) (0, 0) = Inr (False, stuck_board)"
  by code_simp

lemma in_bounds_corner: "in_bounds (0, 0)"
  by (simp add: in_bounds_def BOARD_SIZE_def)

lemma lv_steps_loop:
  "lv_steps s k s' \<Longrightarrow>
     (case s of (rnd, x, y, mc, b) \<Rightarrow> KnightsTourLasVegas_loop rnd x y mc b) =
     (case s' of (rnd, x, y, mc, b) \<Rightarrow> KnightsTourLasVegas_loop rnd x y mc b)"
proof (induction rule: lv_steps.induct)
  case (lv_steps_0 s)
  show ?case by simp
next
  case (lv_steps_Suc move_count current_x current_y board valid_moves rnd next_x next_y board' k s')
  have "KnightsTourLasVegas_loop rnd current_x current_y move_count board =
        KnightsTourLasVegas_loop (\<lambda>i. rnd (Suc i)) next_x next_y (move_count + 1) board'"
    using lv_steps_Suc.hyps(1-5)
    by (simp add: KnightsTourLasVegas_loop.simps[of rnd current_x current_y move_count board])
  with lv_steps_Suc.IH show ?case by simp
qed

lemma lv_inv_start:
  assumes "in_bounds start" "board_set empty_board (fst start) (snd start) 1 = Inr b0"
  shows "lv_inv (rnd, fst start, snd start, 1, b0) [start]"
proof -
  have "in_bounds (fst start, snd start)" using assms(1) by simp
  with wf_board_empty have "board_set empty_board (fst start) (snd start) 1 = Inr (mark empty_board start 1)"
    using board_set_wf[of empty_board "fst start" "snd start" 1] by simp
  with assms(2) have "b0 = mark empty_board start 1" by simp
  with tour_inv_start[OF assms(1)] show ?thesis by (simp add: lv_inv_def)
qed

lemma lv_inv_keeps:
  assumes "lv_inv (rnd1, x1, y1, m1, b1) path" "lv_inv (rnd2, x2, y2, m2, b2) (path @ ext)"
    and "in_bounds p" "cell b1 p \<noteq> 0"
  shows "cell b2 p = cell b1 p"
proof -
  from assms(1,2) have i1: "tour_inv b1 path" and i2: "tour_inv b2 (path @ ext)"
    by (simp_all add: lv_inv_def)
  have "p \<in> set path"
  proof (rule ccontr)
    assume "p \<notin> set path"
    with i1 assms(3) have "cell b1 p = 0" unfolding tour_inv_def by blast
    with assms(4) show False by simp
  qed
  then obtain i where i: "i < length path" "path ! i = p" by (auto simp: in_set_conv_nth)
  from i1 i have "cell b1 p = int i + 1" unfolding tour_inv_def by blast
  moreover from i have "i < length (path @ ext)" "(path @ ext) ! i = p" by (simp_all add: nth_append)
  with i2 have "cell b2 p = int i + 1" unfolding tour_inv_def by blast
  ultimately show ?thesis by simp
qed

lemma lv_inv_count:
  assumes "lv_inv (rnd, x, y, m, b) path"
  shows "visited_count b = length path" "length path \<le> 64" "m = int (visited_count b)"
    "in_bounds (x, y)" "cell b (x, y) = int (visited_count b)"
    "\<And>p. in_bounds p \<Longrightarrow> cell b p = int (visited_count b) \<Longrightarrow> p = (x, y)"
    "mset (filter (\<lambda>v. 0 < v) (concat b)) = mset [1..int (visited_count b)]"
proof -
  from assms have inv: "tour_inv b path" and ne: "path \<noteq> []" and l: "last path = (x, y)"
    and m: "m = int (length path)" by (simp_all add: lv_inv_def)
  show c: "visited_count b = length path" using inv by (rule tour_inv_visited)
  show "length path \<le> 64" using inv by (rule tour_inv_values)
  show "m = int (visited_count b)" using m c by simp
  have lp: "last path = path ! (length path - 1)" using ne by (rule last_conv_nth)
  have mem: "(x, y) \<in> set path" using ne l by (metis last_in_set)
  with inv show "in_bounds (x, y)" by (rule tour_inv_on_path)
  have idx: "length path - 1 < length path" using ne by simp
  with inv have "cell b (path ! (length path - 1)) = int (length path - 1) + 1"
    unfolding tour_inv_def by blast
  moreover from ne have "0 < length path" by simp
  then have "int (length path - 1) + 1 = int (length path)" by linarith
  ultimately have "cell b (last path) = int (length path)" using lp by simp
  then show "cell b (x, y) = int (visited_count b)" unfolding c l .
  show "mset (filter (\<lambda>v. 0 < v) (concat b)) = mset [1..int (visited_count b)]"
    unfolding c using inv by (rule tour_inv_visited)
  fix p assume p: "in_bounds p" "cell b p = int (visited_count b)"
  have "p \<in> set path"
  proof (rule ccontr)
    assume "p \<notin> set path"
    with inv p(1) have "cell b p = 0" unfolding tour_inv_def by blast
    with p(2) c ne show False by simp
  qed
  then obtain i where i: "i < length path" "path ! i = p" by (auto simp: in_set_conv_nth)
  with inv have "cell b p = int i + 1" unfolding tour_inv_def by blast
  with p(2) c have "i = length path - 1" by simp
  with i lp l show "p = (x, y)" by simp
qed

lemma las_vegas_final_state:
  assumes "in_bounds start" "KnightsTourLasVegas rnd start = Inr (success, board)"
  obtains b0 k rnd' x y m where "board_set empty_board (fst start) (snd start) 1 = Inr b0"
    "KnightsTourLasVegas_loop rnd (fst start) (snd start) 1 b0 = Inr (x, y, m, board)"
    "lv_steps (rnd, fst start, snd start, 1, b0) k (rnd', x, y, m, board)"
    "success \<longleftrightarrow> m = total_squares \<and> is_closed_tour (x, y) start"
proof -
  from assms(2) obtain b0 where b0: "board_set empty_board (fst start) (snd start) 1 = Inr b0"
    by (auto simp: KnightsTourLasVegas_def split_beta split: sum.splits)
  with assms(2) obtain x y m where
    r: "KnightsTourLasVegas_loop rnd (fst start) (snd start) 1 b0 = Inr (x, y, m, board)"
    and s: "success \<longleftrightarrow> m = total_squares \<and> is_closed_tour (x, y) start"
    by (auto simp: KnightsTourLasVegas_def split_beta split: sum.splits)
  from lv_loop_steps[OF r] obtain k rnd'
    where "lv_steps (rnd, fst start, snd start, 1, b0) k (rnd', x, y, m, board)" by blast
  with b0 r s that show thesis by blast
qed

section \<open>Randomized search: properties\<close>

lemma las_vegas_run_inv:
  assumes "in_bounds start" "board_set empty_board (fst start) (snd start) 1 = Inr b0"
    and "lv_steps (rnd, fst start, snd start, 1, b0) k (rnd', x, y, m, b)"
  shows "\<exists>ext. lv_inv (rnd', x, y, m, b) ([start] @ ext) \<and> length ext = k"
  using assms(3) lv_inv_start[OF assms(1,2)] by (rule lv_steps_inv)

lemma corner_first_moves:
  "board_set empty_board 0 0 1 = Inr (mark empty_board (0, 0) 1)"
  "lv_steps (\<lambda>_. 0, 0, 0, 1, mark empty_board (0, 0) 1) 1
            (\<lambda>_. 0, 2, 1, 2, mark (mark empty_board (0, 0) 1) (2, 1) 2)"
  "lv_steps (\<lambda>_. 0, 2, 1, 2, mark (mark empty_board (0, 0) 1) (2, 1) 2) 1
            (\<lambda>_. 0, 4, 2, 3, mark (mark (mark empty_board (0, 0) 1) (2, 1) 2) (4, 2) 3)"
proof -
  show "board_set empty_board 0 0 1 = Inr (mark empty_board (0, 0) 1)" by code_simp
  have 1: "(1::int) < total_squares" "(2::int) < total_squares"
    by (simp_all add: total_squares_def BOARD_SIZE_def)
  have g1: "get_valid_moves 0 0 (mark empty_board (0, 0) 1) = Inr [(2, 1), (1, 2)]" by code_simp
  have c1: "random_choice ((\<lambda>_. 0) (0::nat)) [(2, 1), (1, 2)] = Inr (2::int, 1::int)"
    by (simp add: random_choice_def)
  have s1: "board_set (mark empty_board (0, 0) 1) 2 1 (1 + 1)
              = Inr (mark (mark empty_board (0, 0) 1) (2, 1) 2)" by code_simp
  have "lv_steps (\<lambda>_. 0, 0, 0, 1, mark empty_board (0, 0) 1) (Suc 0)
            (\<lambda>_. 0, 2, 1, 1 + 1, mark (mark empty_board (0, 0) 1) (2, 1) 2)"
    using 1(1) g1 _ c1 s1 by (rule lv_steps_Suc) (simp, rule lv_steps_0)
  then show "lv_steps (\<lambda>_. 0, 0, 0, 1, mark empty_board (0, 0) 1) 1
            (\<lambda>_. 0, 2, 1, 2, mark (mark empty_board (0, 0) 1) (2, 1) 2)" by simp
  have g2: "get_valid_moves 2 1 (mark (mark empty_board (0, 0) 1) (2, 1) 2)
              = Inr [(4, 2), (4, 0), (0, 2), (3, 3), (1, 3)]" by code_simp
  have c2: "random_choice ((\<lambda>_. 0) (0::nat)) [(4, 2), (4, 0), (0, 2), (3, 3), (1, 3)] = Inr (4::int, 2::int)"
    by (simp add: random_choice_def)
  have s2: "board_set (mark (mark empty_board (0, 0) 1) (2, 1) 2) 4 2 (2 + 1)
              = Inr (mark (mark (mark empty_board (0, 0) 1) (2, 1) 2) (4, 2) 3)" by code_simp
  have "lv_steps (\<lambda>_. 0, 2, 1, 2, mark (mark empty_board (0, 0) 1) (2, 1) 2) (Suc 0)
            (\<lambda>_. 0, 4, 2, 2 + 1, mark (mark (mark empty_board (0, 0) 1) (2, 1) 2) (4, 2) 3)"
    using 1(2) g2 _ c2 s2 by (rule lv_steps_Suc) (simp, rule lv_steps_0)
  then show "lv_steps (\<lambda>_. 0, 2, 1, 2, mark (mark empty_board (0, 0) 1) (2, 1) 2) 1
            (\<lambda>_. 0, 4, 2, 3, mark (mark (mark empty_board (0, 0) 1) (2, 1) 2) (4, 2) 3)" by simp
qed

text \<open>
  Claim C7. The flag returned by the randomized search is true exactly when all 64
  cells are visited and the last-visited cell, the one holding the highest move index,
  is one knight offset from the start. The board holds the values 1 to \<open>n\<close> once each,
  \<open>n\<close> the number of visited cells; a false flag means \<open>n < 64\<close>, or \<open>n = 64\<close>
  and the closure check fails.
\<close>

theorem las_vegas_success_iff:
  assumes "in_bounds start" and "KnightsTourLasVegas rnd start = Inr (success, board)"
  shows "\<exists>last. in_bounds last \<and> cell board last = int (visited_count board) \<and>
           (\<forall>p. in_bounds p \<and> cell board p = int (visited_count board) \<longrightarrow> p = last) \<and>
           mset (filter (\<lambda>v. 0 < v) (concat board)) = mset [1..int (visited_count board)] \<and>
           visited_count board \<le> 64 \<and>
           (success \<longleftrightarrow> visited_count board = 64 \<and> is_closed_tour last start) \<and>
           (\<not> success \<longrightarrow> visited_count board < 64 \<or>
              (visited_count board = 64 \<and> \<not> is_closed_tour last start))"
proof -
  from assms obtain b0 k rnd' x y m
    where b0: "board_set empty_board (fst start) (snd start) 1 = Inr b0"
      and st: "lv_steps (rnd, fst start, snd start, 1, b0) k (rnd', x, y, m, board)"
      and s: "success \<longleftrightarrow> m = total_squares \<and> is_closed_tour (x, y) start"
    by (rule las_vegas_final_state)
  from las_vegas_run_inv[OF assms(1) b0 st] obtain ext
    where inv: "lv_inv (rnd', x, y, m, board) ([start] @ ext)" by blast
  note c = lv_inv_count[OF inv]
  have le: "visited_count board \<le> 64" using c(1,2) by simp
  have iff: "success \<longleftrightarrow> visited_count board = 64 \<and> is_closed_tour (x, y) start"
    using s c(3) by (auto simp: total_squares_def BOARD_SIZE_def)
  have neg: "\<not> success \<longrightarrow> visited_count board < 64 \<or>
              (visited_count board = 64 \<and> \<not> is_closed_tour (x, y) start)"
    using iff le by auto
  have u: "\<forall>p. in_bounds p \<and> cell board p = int (visited_count board) \<longrightarrow> p = (x, y)"
    using c(6) by blast
  from c(4,5) u c(7) le iff neg show ?thesis by blast
qed

theorem las_vegas_success_iff_witness:
  "in_bounds (0, 0) \<and> KnightsTourLasVegas (\<lambda>_. 0) (0, 0) = Inr (False, stuck_board) \<and>
   (\<exists>last. in_bounds last \<and> cell stuck_board last = int (visited_count stuck_board) \<and>
      (\<forall>p. in_bounds p \<and> cell stuck_board p = int (visited_count stuck_board) \<longrightarrow> p = last) \<and>
      mset (filter (\<lambda>v. 0 < v) (concat stuck_board)) = mset [1..int (visited_count stuck_board)] \<and>
      visited_count stuck_board \<le> 64 \<and>
      (False \<longleftrightarrow> visited_count stuck_board = 64 \<and> is_closed_tour last (0, 0)) \<and>
      (\<not> False \<longrightarrow> visited_count stuck_board < 64 \<or>
         (visited_count stuck_board = 64 \<and> \<not> is_closed_tour last (0, 0))))"
  using las_vegas_success_iff[OF in_bounds_corner las_vegas_first_choice_run]
    in_bounds_corner las_vegas_first_choice_run by blast

text \<open>
  Claim C8. Take any state of a run of the randomized search from an in-bounds start
  (\<open>k1\<close> moves after the initial mark) and any later state of it (\<open>k2\<close> moves
  further), or the board the search returns: every cell marked in the first state holds
  the same value later, the number of marked cells is one more than the number of
  moves made, and it never exceeds 64.
\<close>

theorem las_vegas_marks_once:
  assumes "in_bounds start"
    and "board_set empty_board (fst start) (snd start) 1 = Inr b0"
    and "lv_steps (rnd, fst start, snd start, 1, b0) k1 (rnd1, x1, y1, m1, b1)"
  shows "(lv_steps (rnd1, x1, y1, m1, b1) k2 (rnd2, x2, y2, m2, b2) \<longrightarrow>
            (\<forall>p. in_bounds p \<and> cell b1 p \<noteq> 0 \<longrightarrow> cell b2 p = cell b1 p) \<and>
            visited_count b2 = 1 + k1 + k2 \<and> visited_count b2 \<le> 64) \<and>
         (KnightsTourLasVegas rnd start = Inr (success, board) \<longrightarrow>
            (\<forall>p. in_bounds p \<and> cell b1 p \<noteq> 0 \<longrightarrow> cell board p = cell b1 p) \<and>
            visited_count board \<le> 64)"
proof -
  from las_vegas_run_inv[OF assms] obtain ext1
    where inv1: "lv_inv (rnd1, x1, y1, m1, b1) ([start] @ ext1)" and l1: "length ext1 = k1"
    by blast
  have later: "(\<forall>p. in_bounds p \<and> cell b1 p \<noteq> 0 \<longrightarrow> cell b' p = cell b1 p) \<and>
            visited_count b' = 1 + k1 + k \<and> visited_count b' \<le> 64"
    if "lv_steps (rnd1, x1, y1, m1, b1) k (rnd', x', y', m', b')" for k rnd' x' y' m' b'
  proof -
    from lv_steps_inv[OF that inv1] obtain ext2
      where inv2: "lv_inv (rnd', x', y', m', b') (([start] @ ext1) @ ext2)"
        and l2: "length ext2 = k" by blast
    have "\<forall>p. in_bounds p \<and> cell b1 p \<noteq> 0 \<longrightarrow> cell b' p = cell b1 p"
      using lv_inv_keeps[OF inv1 inv2] by blast
    moreover have "visited_count b' = 1 + k1 + k"
      using lv_inv_count(1)[OF inv2] l1 l2 by simp
    moreover have "visited_count b' \<le> 64"
      using lv_inv_count(1,2)[OF inv2] by simp
    ultimately show ?thesis by blast
  qed
  have final: "(\<forall>p. in_bounds p \<and> cell b1 p \<noteq> 0 \<longrightarrow> cell board p = cell b1 p) \<and>
            visited_count board \<le> 64"
    if r: "KnightsTourLasVegas rnd start = Inr (success, board)"
  proof -
    from assms(1) r obtain b0' k rnd' x y m
      where b0': "board_set empty_board (fst start) (snd start) 1 = Inr b0'"
        and loop: "KnightsTourLasVegas_loop rnd (fst start) (snd start) 1 b0' = Inr (x, y, m, board)"
      by (rule las_vegas_final_state)
    from b0' assms(2) have "b0' = b0" by simp
    with loop lv_steps_loop[OF assms(3)]
    have "KnightsTourLasVegas_loop rnd1 x1 y1 m1 b1 = Inr (x, y, m, board)" by simp
    from lv_loop_steps[OF this] obtain k' rnd''
      where "lv_steps (rnd1, x1, y1, m1, b1) k' (rnd'', x, y, m, board)" by blast
    from later[OF this] show ?thesis by blast
  qed
  from later[of k2 rnd2 x2 y2 m2 b2] final show ?thesis by blast
qed

theorem las_vegas_marks_once_witness:
  "in_bounds (0, 0) \<and>
   board_set empty_board 0 0 1 = Inr (mark empty_board (0, 0) 1) \<and>
   lv_steps (\<lambda>_. 0, 0, 0, 1, mark empty_board (0, 0) 1) 1
            (\<lambda>_. 0, 2, 1, 2, mark (mark empty_board (0, 0) 1) (2, 1) 2) \<and>
   lv_steps (\<lambda>_. 0, 2, 1, 2, mark (mark empty_board (0, 0) 1) (2, 1) 2) 1
            (\<lambda>_. 0, 4, 2, 3, mark (mark (mark empty_board (0, 0) 1) (2, 1) 2) (4, 2) 3) \<and>
   KnightsTourLasVegas (\<lambda>_. 0) (0, 0) = Inr (False, stuck_board) \<and>
   cell (mark (mark (mark empty_board (0, 0) 1) (2, 1) 2) (4, 2) 3) (2, 1) = 2 \<and>
   visited_count (mark (mark (mark empty_board (0, 0) 1) (2, 1) 2) (4, 2) 3) = 3 \<and>
   cell stuck_board (2, 1) = 2 \<and> visited_count stuck_board \<le> 64"
proof -
  let ?b1 = "mark (mark empty_board (0, 0) 1) (2, 1) 2"
  let ?b2 = "mark ?b1 (4, 2) 3"
  have b0: "board_set empty_board (fst (0::int, 0::int)) (snd (0::int, 0::int)) 1
              = Inr (mark empty_board (0, 0) 1)"
    using corner_first_moves(1) by simp
  have s1: "lv_steps (\<lambda>_. 0, fst (0::int, 0::int), snd (0::int, 0::int), 1, mark empty_board (0, 0) 1) 1
              (\<lambda>_. 0, 2, 1, 2, ?b1)"
    using corner_first_moves(2) by simp
  note t = las_vegas_marks_once[OF in_bounds_corner b0 s1,
      of 1 "\<lambda>_. 0" 4 2 3 ?b2 False stuck_board]
  have c: "cell ?b1 (2, 1) = 2" by code_simp
  have ib: "in_bounds (2, 1)" by (simp add: in_bounds_def BOARD_SIZE_def)
  from t corner_first_moves(3) have "cell ?b2 (2, 1) = cell ?b1 (2, 1)"
    "visited_count ?b2 = 1 + 1 + 1" using c ib by auto
  moreover from t las_vegas_first_choice_run have "cell stuck_board (2, 1) = cell ?b1 (2, 1)"
    "visited_count stuck_board \<le> 64" using c ib by auto
  ultimately show ?thesis
    using in_bounds_corner corner_first_moves las_vegas_first_choice_run c by simp
qed

section \<open>Termination of both searches\<close>

lemma wf_dead_end_board: "wf_board dead_end_board"
  by (simp add: wf_board_def dead_end_board_def BOARD_SIZE_def)

text \<open>
  Claim C3. From an in-bounds start both searches return a flag and a board, without
  raising. \<open>backtrack\<close> returns on every 8 by 8 board, whatever its other arguments:
  its recursion terminates because each call is made on a board with fewer unvisited
  cells. A run of the randomized search makes at most 63 moves after the initial mark.
\<close>

theorem searches_terminate:
  assumes "in_bounds start"
  shows "(\<exists>success board. KnightsTourBacktracking start = Inr (success, board)) \<and>
         (\<exists>success board. KnightsTourLasVegas rnd start = Inr (success, board)) \<and>
         (wf_board b \<longrightarrow> (\<exists>success board. backtrack sp x y mc b = Inr (success, board))) \<and>
         (board_set empty_board (fst start) (snd start) 1 = Inr b0 \<and>
          lv_steps (rnd, fst start, snd start, 1, b0) k s' \<longrightarrow> k \<le> 63)"
proof -
  let ?b0 = "mark empty_board start 1"
  have "in_bounds (fst start, snd start)" using assms by simp
  with wf_board_empty
  have set0: "board_set empty_board (fst start) (snd start) 1 = Inr ?b0"
    using board_set_wf[of empty_board "fst start" "snd start" 1] by simp
  have wf0: "wf_board ?b0" using wf_board_empty by (rule wf_board_mark)
  have 1: "\<exists>success board. KnightsTourBacktracking start = Inr (success, board)"
  proof -
    from backtrack_returns(1)[OF wf0] obtain ok b'
      where "backtrack start (fst start) (snd start) 1 ?b0 = Inr (ok, b')" by blast
    with set0 have "KnightsTourBacktracking start = Inr (ok, b')"
      by (simp add: KnightsTourBacktracking_def split_beta)
    then show ?thesis by blast
  qed
  have 2: "\<exists>success board. KnightsTourLasVegas rnd start = Inr (success, board)"
  proof -
    from lv_loop_returns[OF wf0] obtain r
      where "KnightsTourLasVegas_loop rnd (fst start) (snd start) 1 ?b0 = Inr r" by blast
    with set0 show ?thesis
      by (cases r) (simp add: KnightsTourLasVegas_def split_beta)
  qed
  have 3: "wf_board b \<longrightarrow> (\<exists>success board. backtrack sp x y mc b = Inr (success, board))"
    using backtrack_returns(1)[of b sp x y mc] by blast
  have 4: "k \<le> 63" if b0: "board_set empty_board (fst start) (snd start) 1 = Inr b0"
    and st: "lv_steps (rnd, fst start, snd start, 1, b0) k s'"
  proof -
    obtain rnd' x' y' m' b' where s': "s' = (rnd', x', y', m', b')" by (cases s')
    from las_vegas_run_inv[OF assms b0 st[unfolded s']] obtain ext
      where inv: "lv_inv (rnd', x', y', m', b') ([start] @ ext)" and l: "length ext = k" by blast
    from lv_inv_count(2)[OF inv] l show ?thesis by simp
  qed
  from 1 2 3 4 show ?thesis by blast
qed

theorem searches_terminate_witness:
  "in_bounds (0, 0) \<and>
   (\<exists>success board. KnightsTourBacktracking (0, 0) = Inr (success, board)) \<and>
   (\<exists>success board. KnightsTourLasVegas (\<lambda>_. 0) (0, 0) = Inr (success, board)) \<and>
   wf_board dead_end_board \<and>
   (\<exists>success board. backtrack (1, 6) 2 4 62 dead_end_board = Inr (success, board)) \<and>
   board_set empty_board 0 0 1 = Inr (mark empty_board (0, 0) 1) \<and>
   lv_steps (\<lambda>_. 0, 0, 0, 1, mark empty_board (0, 0) 1) 1
            (\<lambda>_. 0, 2, 1, 2, mark (mark empty_board (0, 0) 1) (2, 1) 2) \<and>
   (1::nat) \<le> 63"
  using searches_terminate[OF in_bounds_corner, of "\<lambda>_. 0" dead_end_board "(1, 6)" 2 4 62
      "mark empty_board (0, 0) 1" 1 "(\<lambda>_. 0, 2, 1, 2, mark (mark empty_board (0, 0) 1) (2, 1) 2)"]
    in_bounds_corner wf_dead_end_board corner_first_moves(1,2)
  by simp

section \<open>The states of the backtracking search\<close>

text \<open>
  \<open>bt_visits sp x y mc b st\<close>: during the call \<open>backtrack(x, y, mc)\<close> on board
  \<open>b\<close>, the search is in state \<open>st\<close> (current cell, move count, board) at the entry
  of a call of \<open>backtrack\<close>, that is just after a mark, or just after an unmark.
  \<open>for_visits\<close> is the same for the loop over the moves still to try; a failed
  recursive call is passed over with the board it returned.
\<close>

inductive bt_visits :: "int \<times> int \<Rightarrow> int \<Rightarrow> int \<Rightarrow> int \<Rightarrow> board \<Rightarrow> int \<times> int \<times> int \<times> board \<Rightarrow> bool"
  and for_visits :: "int \<times> int \<Rightarrow> int \<Rightarrow> int \<Rightarrow> int \<Rightarrow> (int \<times> int) list \<Rightarrow> board \<Rightarrow> int \<times> int \<times> int \<times> board \<Rightarrow> bool" where
  visit_entry: "bt_visits sp x y mc b (x, y, mc, b)"
| visit_body:
  "mc \<noteq> total_squares \<Longrightarrow> get_sorted_moves x y b = Inr sorted_moves \<Longrightarrow>
   for_visits sp x y mc sorted_moves b st \<Longrightarrow> bt_visits sp x y mc b st"
| visit_call:
  "board_set b next_x next_y (mc + 1) = Inr b1 \<Longrightarrow>
   bt_visits sp next_x next_y (mc + 1) b1 st \<Longrightarrow>
   for_visits sp x y mc ((next_x, next_y) # rest) b st"
| visit_unmark:
  "board_set b next_x next_y (mc + 1) = Inr b1 \<Longrightarrow>
   backtrack sp next_x next_y (mc + 1) b1 = Inr (False, b2) \<Longrightarrow>
   board_set b2 next_x next_y 0 = Inr b3 \<Longrightarrow>
   for_visits sp x y mc ((next_x, next_y) # rest) b (x, y, mc, b3)"
| visit_next:
  "board_set b next_x next_y (mc + 1) = Inr b1 \<Longrightarrow>
   backtrack sp next_x next_y (mc + 1) b1 = Inr (False, b2) \<Longrightarrow>
   board_set b2 next_x next_y 0 = Inr b3 \<Longrightarrow>
   for_visits sp x y mc rest b3 st \<Longrightarrow>
   for_visits sp x y mc ((next_x, next_y) # rest) b st"

definition on_path :: "int \<times> int \<times> int \<times> board \<Rightarrow> (int \<times> int) list \<Rightarrow> bool" where
  "on_path st path \<longleftrightarrow>
     (case st of (x, y, mc, b) \<Rightarrow>
        tour_inv b path \<and> path \<noteq> [] \<and> last path = (x, y) \<and> mc = int (length path))"

lemma visits_on_path:
  "bt_visits sp x y mc b st \<Longrightarrow> on_path (x, y, mc, b) path \<Longrightarrow>
     \<exists>ext. on_path st (path @ ext)"
  "for_visits sp x y mc ms b st \<Longrightarrow> on_path (x, y, mc, b) path \<Longrightarrow>
     (\<forall>m\<in>set ms. unvisited b m \<and> m \<in> set (neighbours (x, y))) \<Longrightarrow>
     \<exists>ext. on_path st (path @ ext)"
proof (induction arbitrary: path and path rule: bt_visits_for_visits.inducts)
  case (visit_entry sp x y mc b)
  then have "on_path (x, y, mc, b) (path @ [])" by simp
  then show ?case by blast
next
  case (visit_body mc x y b sorted_moves sp st)
  have wf: "wf_board b" using visit_body.prems by (auto simp: on_path_def dest: tour_inv_wf)
  have "\<forall>m\<in>set sorted_moves. unvisited b m \<and> m \<in> set (neighbours (x, y))"
    using sorted_moves_unvisited[OF wf visit_body.hyps(2)] by blast
  with visit_body.IH[OF visit_body.prems] show ?case .
next
  case (visit_call b next_x next_y mc b1 sp st x y rest)
  from visit_call.prems(1) have inv: "tour_inv b path" and ne: "path \<noteq> []"
    and l: "last path = (x, y)" and mc: "mc = int (length path)"
    by (simp_all add: on_path_def)
  have wf: "wf_board b" using inv by (rule tour_inv_wf)
  from visit_call.prems(2) l have u: "unvisited b (next_x, next_y)"
    and k: "(next_x, next_y) \<in> set (neighbours (last path))" by simp_all
  from u have "in_bounds (next_x, next_y)" by (simp add: unvisited_def)
  with wf visit_call.hyps(1) have b1: "b1 = mark b (next_x, next_y) (mc + 1)"
    by (simp add: board_set_wf)
  have "tour_inv b1 (path @ [(next_x, next_y)])"
    unfolding b1 mc using inv ne u k by (rule tour_inv_extend)
  then have "on_path (next_x, next_y, mc + 1, b1) (path @ [(next_x, next_y)])"
    using mc by (simp add: on_path_def)
  from visit_call.IH[OF this] obtain ext
    where "on_path st ((path @ [(next_x, next_y)]) @ ext)" by blast
  then have "on_path st (path @ ((next_x, next_y) # ext))" by simp
  then show ?case by blast
next
  case (visit_unmark b next_x next_y mc b1 sp b2 b3 x y rest)
  have wf: "wf_board b" using visit_unmark.prems(1) by (auto simp: on_path_def dest: tour_inv_wf)
  from visit_unmark.prems(2) have "unvisited b (next_x, next_y)" by simp
  with wf have v: "is_valid_move next_x next_y b = Inr True"
    using unvisited_valid[of b "(next_x, next_y)"] by simp
  have "b2 = b1" using visit_unmark.hyps(2) by (rule backtrack_failure_restores(1))
  with visit_unmark.hyps(3) have "board_set b1 next_x next_y 0 = Inr b3" by simp
  with v visit_unmark.hyps(1) have "b3 = b" by (rule mark_unmark)
  with visit_unmark.prems(1) have "on_path (x, y, mc, b3) (path @ [])" by simp
  then show ?case by blast
next
  case (visit_next b next_x next_y mc b1 sp b2 b3 x y rest st)
  have wf: "wf_board b" using visit_next.prems(1) by (auto simp: on_path_def dest: tour_inv_wf)
  from visit_next.prems(2) have "unvisited b (next_x, next_y)" by simp
  with wf have v: "is_valid_move next_x next_y b = Inr True"
    using unvisited_valid[of b "(next_x, next_y)"] by simp
  have "b2 = b1" using visit_next.hyps(2) by (rule backtrack_failure_restores(1))
  with visit_next.hyps(3) have "board_set b1 next_x next_y 0 = Inr b3" by simp
  with v visit_next.hyps(1) have e: "b3 = b" by (rule mark_unmark)
  from visit_next.prems(1) have 1: "on_path (x, y, mc, b3) path" unfolding e .
  from visit_next.prems(2) have 2: "\<forall>m\<in>set rest. unvisited b3 m \<and> m \<in> set (neighbours (x, y))"
    unfolding e by simp
  from visit_next.IH[OF 1 2] show ?case .
qed

text \<open>
  Claim C5. The board changes at two places of the search: where a candidate is marked,
  just before the recursive call, and where it is unmarked after the call failed. Every
  state the search from an in-bounds start is in at the entry of a call of \<open>backtrack\<close>
  or after an unmark, with current cell \<open>(x, y)\<close> and move count \<open>m\<close>, has a path
  of \<open>m\<close> cells from the start to \<open>(x, y)\<close>, each one knight offset from the one
  before, whose \<open>i\<close>-th cell holds \<open>i\<close>; every other cell holds 0, so the positive
  values on the board are 1 to \<open>m\<close>, once each.
\<close>

theorem backtracking_path_invariant:
  assumes "in_bounds start"
    and "board_set empty_board (fst start) (snd start) 1 = Inr b0"
    and "bt_visits start (fst start) (snd start) 1 b0 (x, y, m, b)"
  shows "\<exists>path. int (length path) = m \<and> hd path = start \<and> last path = (x, y) \<and>
           distinct path \<and>
           (\<forall>i<length path. in_bounds (path ! i) \<and> cell b (path ! i) = int i + 1) \<and>
           (\<forall>p. in_bounds p \<and> p \<notin> set path \<longrightarrow> cell b p = 0) \<and>
           knight_path path \<and> wf_board b \<and>
           mset (filter (\<lambda>v. 0 < v) (concat b)) = mset [1..m]"
proof -
  have "in_bounds (fst start, snd start)" using assms(1) by simp
  with wf_board_empty have "board_set empty_board (fst start) (snd start) 1 = Inr (mark empty_board start 1)"
    using board_set_wf[of empty_board "fst start" "snd start" 1] by simp
  with assms(2) have "b0 = mark empty_board start 1" by simp
  with tour_inv_start[OF assms(1)] have "on_path (fst start, snd start, 1, b0) [start]"
    by (simp add: on_path_def)
  from visits_on_path(1)[OF assms(3) this] obtain ext
    where "on_path (x, y, m, b) ([start] @ ext)" by blast
  then have inv: "tour_inv b (start # ext)" and l: "last (start # ext) = (x, y)"
    and m: "m = int (length (start # ext))" by (simp_all add: on_path_def)
  let ?path = "start # ext"
  have 1: "\<forall>i<length ?path. in_bounds (?path ! i) \<and> cell b (?path ! i) = int i + 1"
  proof (intro allI impI)
    fix i assume i: "i < length ?path"
    then have "?path ! i \<in> set ?path" by (rule nth_mem)
    with inv have "in_bounds (?path ! i)" by (rule tour_inv_on_path)
    moreover from inv i have "cell b (?path ! i) = int i + 1" unfolding tour_inv_def by blast
    ultimately show "in_bounds (?path ! i) \<and> cell b (?path ! i) = int i + 1" ..
  qed
  have 2: "\<forall>p. in_bounds p \<and> p \<notin> set ?path \<longrightarrow> cell b p = 0"
    using inv unfolding tour_inv_def by blast
  have 3: "distinct ?path" "knight_path ?path" "wf_board b"
    using inv by (simp_all add: tour_inv_def)
  have 4: "mset (filter (\<lambda>v. 0 < v) (concat b)) = mset [1..m]"
    unfolding m using inv by (rule tour_inv_visited)
  have "int (length ?path) = m \<and> hd ?path = start \<and> last ?path = (x, y) \<and>
           distinct ?path \<and>
           (\<forall>i<length ?path. in_bounds (?path ! i) \<and> cell b (?path ! i) = int i + 1) \<and>
           (\<forall>p. in_bounds p \<and> p \<notin> set ?path \<longrightarrow> cell b p = 0) \<and>
           knight_path ?path \<and> wf_board b \<and>
           mset (filter (\<lambda>v. 0 < v) (concat b)) = mset [1..m]"
    using m l 1 2 3 4 by simp
  then show ?thesis by (rule exI)
qed

fun first_descent :: "int \<Rightarrow> int \<Rightarrow> int \<Rightarrow> board \<Rightarrow> nat \<Rightarrow> int \<times> int \<times> int \<times> board" where
  "first_descent x y mc b 0 = (x, y, mc, b)"
| "first_descent x y mc b (Suc k) =
     (if mc = total_squares then (x, y, mc, b)
      else (case get_sorted_moves x y b of
              Inr ((next_x, next_y) # rest) \<Rightarrow>
                (case board_set b next_x next_y (mc + 1) of
                   Inr b1 \<Rightarrow> first_descent next_x next_y (mc + 1) b1 k
                 | Inl e \<Rightarrow> (x, y, mc, b))
            | _ \<Rightarrow> (x, y, mc, b)))"

lemma first_descent_visits:
  "bt_visits sp x' y' mc' b' st \<Longrightarrow> first_descent x y mc b k = (x', y', mc', b') \<Longrightarrow>
     bt_visits sp x y mc b st"
proof (induction k arbitrary: x y mc b)
  case 0
  then show ?case by simp
next
  case (Suc k)
  show ?case
  proof (cases "\<exists>nx ny rest b1. mc \<noteq> total_squares \<and> get_sorted_moves x y b = Inr ((nx, ny) # rest)
                 \<and> board_set b nx ny (mc + 1) = Inr b1")
    case True
    then obtain nx ny rest b1 where c: "mc \<noteq> total_squares"
      "get_sorted_moves x y b = Inr ((nx, ny) # rest)" "board_set b nx ny (mc + 1) = Inr b1"
      by blast
    with Suc.prems(2) have "first_descent nx ny (mc + 1) b1 k = (x', y', mc', b')" by simp
    with Suc.prems(1) have "bt_visits sp nx ny (mc + 1) b1 st" by (rule Suc.IH)
    with c(3) have "for_visits sp x y mc ((nx, ny) # rest) b st" by (rule visit_call)
    with c(1,2) show ?thesis by (rule visit_body)
  next
    case False
    with Suc.prems(2) have "(x, y, mc, b) = (x', y', mc', b')"
      by (auto split: if_splits sum.splits list.splits)
    with Suc.prems(1) show ?thesis by simp
  qed
qed

lemma dead_end_descent:
  "board_set empty_board 1 6 1 = Inr (mark empty_board (1, 6) 1)"
  "first_descent 1 6 1 (mark empty_board (1, 6) 1) 61 = (2, 4, 62, dead_end_board)"
  "get_sorted_moves 2 4 dead_end_board = Inr [(0, 3)]"
  "board_set dead_end_board 0 3 (62 + 1) = Inr (mark dead_end_board (0, 3) 63)"
  "backtrack (1, 6) 0 3 (62 + 1) (mark dead_end_board (0, 3) 63)
     = Inr (False, mark dead_end_board (0, 3) 63)"
  "board_set (mark dead_end_board (0, 3) 63) 0 3 0 = Inr dead_end_board"
  by code_simp+

lemma dead_end_visited:
  "bt_visits (1, 6) 1 6 1 (mark empty_board (1, 6) 1) (2, 4, 62, dead_end_board)"
proof -
  have "for_visits (1, 6) 2 4 62 [(0, 3)] dead_end_board (2, 4, 62, dead_end_board)"
    using dead_end_descent(4,5,6) by (rule visit_unmark)
  with _ dead_end_descent(3)
  have "bt_visits (1, 6) 2 4 62 dead_end_board (2, 4, 62, dead_end_board)"
    by (rule visit_body) (simp add: total_squares_def BOARD_SIZE_def)
  then show ?thesis using dead_end_descent(2) by (rule first_descent_visits)
qed

theorem backtracking_path_invariant_witness:
  "in_bounds (1, 6) \<and>
   board_set empty_board 1 6 1 = Inr (mark empty_board (1, 6) 1) \<and>
   bt_visits (1, 6) 1 6 1 (mark empty_board (1, 6) 1) (2, 4, 62, dead_end_board) \<and>
   (\<exists>path. int (length path) = 62 \<and> hd path = (1, 6) \<and> last path = (2, 4) \<and>
      distinct path \<and>
      (\<forall>i<length path. in_bounds (path ! i) \<and> cell dead_end_board (path ! i) = int i + 1) \<and>
      (\<forall>p. in_bounds p \<and> p \<notin> set path \<longrightarrow> cell dead_end_board p = 0) \<and>
      knight_path path \<and> wf_board dead_end_board \<and>
      mset (filter (\<lambda>v. 0 < v) (concat dead_end_board)) = mset [1..62])"
proof -
  have ib: "in_bounds (1, 6)" by (simp add: in_bounds_def BOARD_SIZE_def)
  have b0: "board_set empty_board (fst (1::int, 6::int)) (snd (1::int, 6::int)) 1
              = Inr (mark empty_board (1, 6) 1)"
    using dead_end_descent(1) by simp
  have v: "bt_visits (1, 6) (fst (1::int, 6::int)) (snd (1::int, 6::int)) 1
             (mark empty_board (1, 6) 1) (2, 4, 62, dead_end_board)"
    using dead_end_visited by simp
  from backtracking_path_invariant[OF ib b0 v] ib dead_end_descent(1) dead_end_visited
  show ?thesis by blast
qed

section \<open>Move ordering\<close>

text \<open>
  \<open>onward_degree_occupied\<close> is the onward degree as the specification words it: mark
  the candidate as occupied, then count the valid moves from it.
\<close>

definition onward_degree_occupied :: "board \<Rightarrow> int \<times> int \<Rightarrow> int \<Rightarrow> py_error + nat" where
  "onward_degree_occupied board p v =
     (case board_set board (fst p) (snd p) v of
        Inl e \<Rightarrow> Inl e
      | Inr board' \<Rightarrow> count_onward_moves (fst p) (snd p) board')"

lemma not_own_neighbour: "p \<notin> set (neighbours p)"
  by (cases p) (simp add: neighbours_def KNIGHT_MOVES_def)

lemma onward_degree_mark:
  assumes "wf_board b" "in_bounds p"
  shows "onward_degree (mark b p v) p = onward_degree b p"
proof -
  have "unvisited (mark b p v) q = unvisited b q" if "q \<in> set (neighbours p)" for q
  proof -
    from that have "q \<noteq> p" using not_own_neighbour by blast
    then show ?thesis using assms by (auto simp: unvisited_def cell_mark)
  qed
  then have "filter (unvisited (mark b p v)) (neighbours p) = filter (unvisited b) (neighbours p)"
    by (intro filter_cong[OF refl])
  then show ?thesis by (simp add: onward_degree_def)
qed

lemma onward_degree_occupied_wf:
  assumes "wf_board b" "in_bounds p"
  shows "onward_degree_occupied b p v = Inr (onward_degree b p)"
proof -
  have "board_set b (fst p) (snd p) v = Inr (mark b p v)"
    using board_set_wf[OF assms(1), of "fst p" "snd p" v] assms(2) by simp
  moreover have "count_onward_moves (fst p) (snd p) (mark b p v) = Inr (onward_degree (mark b p v) p)"
    using count_onward_moves_wf[OF wf_board_mark[OF assms(1), of p v], of "fst p" "snd p"] by simp
  ultimately show ?thesis
    by (simp add: onward_degree_occupied_def onward_degree_mark[OF assms])
qed

text \<open>
  Claim C6. On an 8 by 8 board, \<open>get_valid_moves\<close> returns the in-bounds unvisited
  cells one knight offset from \<open>(x, y)\<close>, in the order of the 8 offsets, and
  \<open>get_sorted_moves\<close> returns the same cells, ascending by onward degree, cells of
  equal degree in the order \<open>get_valid_moves\<close> lists them. The key the code sorts by,
  the count of valid moves from the candidate on the board as it is, equals the count
  on the board with the candidate marked as occupied, whatever the non-zero mark.
\<close>

theorem sorted_moves_warnsdorff:
  assumes "wf_board board"
  shows "get_valid_moves x y board = Inr (filter (unvisited board) (neighbours (x, y))) \<and>
         (\<exists>sorted_moves. get_sorted_moves x y board = Inr sorted_moves \<and>
            mset sorted_moves = mset (filter (unvisited board) (neighbours (x, y))) \<and>
            sorted (map (onward_degree board) sorted_moves) \<and>
            (\<forall>d. filter (\<lambda>p. onward_degree board p = d) sorted_moves =
                 filter (\<lambda>p. onward_degree board p = d)
                   (filter (unvisited board) (neighbours (x, y))))) \<and>
         (\<forall>p v. unvisited board p \<and> v \<noteq> 0 \<longrightarrow>
            count_onward_moves (fst p) (snd p) board = Inr (onward_degree board p) \<and>
            onward_degree_occupied board p v = Inr (onward_degree board p))"
proof -
  let ?valid = "filter (unvisited board) (neighbours (x, y))"
  let ?sorted = "sort_key (onward_degree board) ?valid"
  have 1: "get_valid_moves x y board = Inr ?valid" using assms by (rule get_valid_moves_wf)
  have s: "get_sorted_moves x y board = Inr ?sorted" using assms by (rule get_sorted_moves_wf)
  have m: "mset ?sorted = mset ?valid" by (rule mset_sort)
  have o: "sorted (map (onward_degree board) ?sorted)" by (rule sorted_sort_key)
  have st: "\<forall>d. filter (\<lambda>p. onward_degree board p = d) ?sorted =
                 filter (\<lambda>p. onward_degree board p = d) ?valid"
    using sort_key_stable[of "onward_degree board" _ ?valid] by blast
  have 3: "\<forall>p v. unvisited board p \<and> v \<noteq> 0 \<longrightarrow>
            count_onward_moves (fst p) (snd p) board = Inr (onward_degree board p) \<and>
            onward_degree_occupied board p v = Inr (onward_degree board p)"
  proof (intro allI impI)
    fix p :: "int \<times> int" and v :: int
    assume "unvisited board p \<and> v \<noteq> 0"
    then have "in_bounds p" by (simp add: unvisited_def)
    with assms have "onward_degree_occupied board p v = Inr (onward_degree board p)"
      by (rule onward_degree_occupied_wf)
    moreover have "count_onward_moves (fst p) (snd p) board = Inr (onward_degree board p)"
      using count_onward_moves_wf[OF assms, of "fst p" "snd p"] by simp
    ultimately show "count_onward_moves (fst p) (snd p) board = Inr (onward_degree board p) \<and>
            onward_degree_occupied board p v = Inr (onward_degree board p)" by blast
  qed
  from s m o st have 2: "\<exists>sorted_moves. get_sorted_moves x y board = Inr sorted_moves \<and>
            mset sorted_moves = mset ?valid \<and>
            sorted (map (onward_degree board) sorted_moves) \<and>
            (\<forall>d. filter (\<lambda>p. onward_degree board p = d) sorted_moves =
                 filter (\<lambda>p. onward_degree board p = d) ?valid)" by blast
  from 1 2 3 show ?thesis by blast
qed

lemma second_move_lists:
  "wf_board (mark (mark empty_board (0, 0) 1) (2, 1) 2)"
  "filter (unvisited (mark (mark empty_board (0, 0) 1) (2, 1) 2)) (neighbours (2, 1))
     = [(4, 2), (4, 0), (0, 2), (3, 3), (1, 3)]"
  "map (onward_degree (mark (mark empty_board (0, 0) 1) (2, 1) 2))
     [(4, 2), (4, 0), (0, 2), (3, 3), (1, 3)] = [7, 3, 3, 7, 5]"
  "unvisited (mark (mark empty_board (0, 0) 1) (2, 1) 2) (4, 0)"
proof -
  show "wf_board (mark (mark empty_board (0, 0) 1) (2, 1) 2)"
    by (intro wf_board_mark wf_board_empty)
  show "filter (unvisited (mark (mark empty_board (0, 0) 1) (2, 1) 2)) (neighbours (2, 1))
     = [(4, 2), (4, 0), (0, 2), (3, 3), (1, 3)]" by code_simp
  show "map (onward_degree (mark (mark empty_board (0, 0) 1) (2, 1) 2))
     [(4, 2), (4, 0), (0, 2), (3, 3), (1, 3)] = [7, 3, 3, 7, 5]" by code_simp
  show "unvisited (mark (mark empty_board (0, 0) 1) (2, 1) 2) (4, 0)" by code_simp
qed

theorem sorted_moves_warnsdorff_witness:
  "wf_board (mark (mark empty_board (0, 0) 1) (2, 1) 2) \<and>
   get_valid_moves 2 1 (mark (mark empty_board (0, 0) 1) (2, 1) 2)
     = Inr [(4, 2), (4, 0), (0, 2), (3, 3), (1, 3)] \<and>
   map (onward_degree (mark (mark empty_board (0, 0) 1) (2, 1) 2))
     [(4, 2), (4, 0), (0, 2), (3, 3), (1, 3)] = [7, 3, 3, 7, 5] \<and>
   (\<exists>sorted_moves. get_sorted_moves 2 1 (mark (mark empty_board (0, 0) 1) (2, 1) 2) = Inr sorted_moves \<and>
      mset sorted_moves = mset [(4, 2), (4, 0), (0, 2), (3, 3), (1, 3)] \<and>
      sorted (map (onward_degree (mark (mark empty_board (0, 0) 1) (2, 1) 2)) sorted_moves) \<and>
      filter (\<lambda>p. onward_degree (mark (mark empty_board (0, 0) 1) (2, 1) 2) p = 3) sorted_moves
        = filter (\<lambda>p. onward_degree (mark (mark empty_board (0, 0) 1) (2, 1) 2) p = 3)
            [(4, 2), (4, 0), (0, 2), (3, 3), (1, 3)]) \<and>
   unvisited (mark (mark empty_board (0, 0) 1) (2, 1) 2) (4, 0) \<and>
   onward_degree_occupied (mark (mark empty_board (0, 0) 1) (2, 1) 2) (4, 0) 1
     = Inr (onward_degree (mark (mark empty_board (0, 0) 1) (2, 1) 2) (4, 0))"
proof -
  let ?b = "mark (mark empty_board (0, 0) 1) (2, 1) 2"
  note t = sorted_moves_warnsdorff[OF second_move_lists(1), of 2 1]
  from t have 1: "get_valid_moves 2 1 ?b = Inr [(4, 2), (4, 0), (0, 2), (3, 3), (1, 3)]"
    unfolding second_move_lists(2) by blast
  from t obtain sorted_moves where s: "get_sorted_moves 2 1 ?b = Inr sorted_moves"
    "mset sorted_moves = mset [(4, 2), (4, 0), (0, 2), (3, 3), (1, 3)]"
    "sorted (map (onward_degree ?b) sorted_moves)"
    "\<forall>d. filter (\<lambda>p. onward_degree ?b p = d) sorted_moves =
         filter (\<lambda>p. onward_degree ?b p = d) [(4, 2), (4, 0), (0, 2), (3, 3), (1, 3)]"
    unfolding second_move_lists(2) by blast
  from t second_move_lists(4)
  have 3: "onward_degree_occupied ?b (4, 0) 1 = Inr (onward_degree ?b (4, 0))" by simp
  from s have "\<exists>sorted_moves. get_sorted_moves 2 1 ?b = Inr sorted_moves \<and>
      mset sorted_moves = mset [(4, 2), (4, 0), (0, 2), (3, 3), (1, 3)] \<and>
      sorted (map (onward_degree ?b) sorted_moves) \<and>
      filter (\<lambda>p. onward_degree ?b p = 3) sorted_moves
        = filter (\<lambda>p. onward_degree ?b p = 3) [(4, 2), (4, 0), (0, 2), (3, 3), (1, 3)]"
    by blast
  with 1 3 second_move_lists show ?thesis by blast
qed

section \<open>Executions of the searches\<close>

text \<open>
  The executions of the two searches as relations, one rule for each path through the
  code: \<open>backtrack_exec sp x y mc board r\<close> holds when a call of \<open>backtrack\<close> with
  these values can return \<open>r\<close>. A call of \<open>random.choice\<close> can return any element of
  its argument; nothing else in the program offers a choice.
\<close>

inductive backtrack_exec :: "int \<times> int \<Rightarrow> int \<Rightarrow> int \<Rightarrow> int \<Rightarrow> board \<Rightarrow> py_error + bool \<times> board \<Rightarrow> bool"
  and backtrack_for_exec :: "int \<times> int \<Rightarrow> int \<Rightarrow> (int \<times> int) list \<Rightarrow> board \<Rightarrow> py_error + bool \<times> board \<Rightarrow> bool" where
  exec_base:
  "move_count = total_squares \<Longrightarrow>
   backtrack_exec sp x y move_count board (Inr (is_closed_tour (x, y) sp, board))"
| exec_moves_raise:
  "move_count \<noteq> total_squares \<Longrightarrow> get_sorted_moves x y board = Inl e \<Longrightarrow>
   backtrack_exec sp x y move_count board (Inl e)"
| exec_loop:
  "move_count \<noteq> total_squares \<Longrightarrow> get_sorted_moves x y board = Inr sorted_moves \<Longrightarrow>
   backtrack_for_exec sp move_count sorted_moves board r \<Longrightarrow>
   backtrack_exec sp x y move_count board r"
| exec_for_end:
  "backtrack_for_exec sp move_count [] board (Inr (False, board))"
| exec_mark_raise:
  "board_set board next_x next_y (move_count + 1) = Inl e \<Longrightarrow>
   backtrack_for_exec sp move_count ((next_x, next_y) # rest) board (Inl e)"
| exec_call_raise:
  "board_set board next_x next_y (move_count + 1) = Inr board1 \<Longrightarrow>
   backtrack_exec sp next_x next_y (move_count + 1) board1 (Inl e) \<Longrightarrow>
   backtrack_for_exec sp move_count ((next_x, next_y) # rest) board (Inl e)"
| exec_found:
  "board_set board next_x next_y (move_count + 1) = Inr board1 \<Longrightarrow>
   backtrack_exec sp next_x next_y (move_count + 1) board1 (Inr (True, board2)) \<Longrightarrow>
   backtrack_for_exec sp move_count ((next_x, next_y) # rest) board (Inr (True, board2))"
| exec_unmark_raise:
  "board_set board next_x next_y (move_count + 1) = Inr board1 \<Longrightarrow>
   backtrack_exec sp next_x next_y (move_count + 1) board1 (Inr (False, board2)) \<Longrightarrow>
   board_set board2 next_x next_y 0 = Inl e \<Longrightarrow>
   backtrack_for_exec sp move_count ((next_x, next_y) # rest) board (Inl e)"
| exec_next:
  "board_set board next_x next_y (move_count + 1) = Inr board1 \<Longrightarrow>
   backtrack_exec sp next_x next_y (move_count + 1) board1 (Inr (False, board2)) \<Longrightarrow>
   board_set board2 next_x next_y 0 = Inr board3 \<Longrightarrow>
   backtrack_for_exec sp move_count rest board3 r \<Longrightarrow>
   backtrack_for_exec sp move_count ((next_x, next_y) # rest) board r"

inductive KnightsTourBacktracking_exec :: "int \<times> int \<Rightarrow> py_error + bool \<times> board \<Rightarrow> bool" where
  exec_start_raise:
  "board_set empty_board x y 1 = Inl e \<Longrightarrow> KnightsTourBacktracking_exec (x, y) (Inl e)"
| exec_start:
  "board_set empty_board x y 1 = Inr board \<Longrightarrow> backtrack_exec (x, y) x y 1 board r \<Longrightarrow>
   KnightsTourBacktracking_exec (x, y) r"

inductive KnightsTourLasVegas_loop_exec ::
  "int \<Rightarrow> int \<Rightarrow> int \<Rightarrow> board \<Rightarrow> py_error + (int \<times> int \<times> int \<times> board) \<Rightarrow> bool" where
  lv_exec_full:
  "\<not> move_count < total_squares \<Longrightarrow>
   KnightsTourLasVegas_loop_exec current_x current_y move_count board
     (Inr (current_x, current_y, move_count, board))"
| lv_exec_moves_raise:
  "move_count < total_squares \<Longrightarrow> get_valid_moves current_x current_y board = Inl e \<Longrightarrow>
   KnightsTourLasVegas_loop_exec current_x current_y move_count board (Inl e)"
| lv_exec_stuck:
  "move_count < total_squares \<Longrightarrow> get_valid_moves current_x current_y board = Inr [] \<Longrightarrow>
   KnightsTourLasVegas_loop_exec current_x current_y move_count board
     (Inr (current_x, current_y, move_count, board))"
| lv_exec_mark_raise:
  "move_count < total_squares \<Longrightarrow>
   get_valid_moves current_x current_y board = Inr valid_moves \<Longrightarrow>
   (next_x, next_y) \<in> set valid_moves \<Longrightarrow>
   board_set board next_x next_y (move_count + 1) = Inl e \<Longrightarrow>
   KnightsTourLasVegas_loop_exec current_x current_y move_count board (Inl e)"
| lv_exec_move:
  "move_count < total_squares \<Longrightarrow>
   get_valid_moves current_x current_y board = Inr valid_moves \<Longrightarrow>
   (next_x, next_y) \<in> set valid_moves \<Longrightarrow>
   board_set board next_x next_y (move_count + 1) = Inr board' \<Longrightarrow>
   KnightsTourLasVegas_loop_exec next_x next_y (move_count + 1) board' r \<Longrightarrow>
   KnightsTourLasVegas_loop_exec current_x current_y move_count board r"

inductive KnightsTourLasVegas_exec :: "int \<times> int \<Rightarrow> py_error + bool \<times> board \<Rightarrow> bool" where
  lv_exec_start_raise:
  "board_set empty_board x y 1 = Inl e \<Longrightarrow> KnightsTourLasVegas_exec (x, y) (Inl e)"
| lv_exec_loop_raise:
  "board_set empty_board x y 1 = Inr board \<Longrightarrow>
   KnightsTourLasVegas_loop_exec x y 1 board (Inl e) \<Longrightarrow>
   KnightsTourLasVegas_exec (x, y) (Inl e)"
| lv_exec_result:
  "board_set empty_board x y 1 = Inr board \<Longrightarrow>
   KnightsTourLasVegas_loop_exec x y 1 board (Inr (current_x, current_y, move_count, board')) \<Longrightarrow>
   KnightsTourLasVegas_exec (x, y)
     (Inr (move_count = total_squares \<and> is_closed_tour (current_x, current_y) (x, y), board'))"

lemma backtrack_exec_deterministic:
  "backtrack_exec sp x y mc b r \<Longrightarrow> backtrack_exec sp x y mc b r' \<Longrightarrow> r' = r"
  "backtrack_for_exec sp mc ms b r \<Longrightarrow> backtrack_for_exec sp mc ms b r' \<Longrightarrow> r' = r"
proof (induction arbitrary: r' and r' rule: backtrack_exec_backtrack_for_exec.inducts)
  case (exec_base move_count sp x y board)
  from exec_base.prems exec_base.hyps show ?case
    by (cases rule: backtrack_exec.cases) simp_all
next
  case (exec_moves_raise move_count x y board e sp)
  from exec_moves_raise.prems exec_moves_raise.hyps show ?case
    by (cases rule: backtrack_exec.cases) simp_all
next
  case (exec_loop move_count x y board sorted_moves sp r)
  from exec_loop.prems exec_loop.hyps(1,2) show ?case
    by (cases rule: backtrack_exec.cases) (simp_all add: exec_loop.IH)
next
  case (exec_for_end sp move_count board)
  from exec_for_end.prems show ?case
    by (cases rule: backtrack_for_exec.cases) simp_all
next
  case (exec_mark_raise board next_x next_y move_count e sp rest)
  from exec_mark_raise.prems exec_mark_raise.hyps show ?case
    by (cases rule: backtrack_for_exec.cases) simp_all
next
  case (exec_call_raise board next_x next_y move_count board1 sp e rest)
  from exec_call_raise.prems exec_call_raise.hyps(1) show ?case
    by (cases rule: backtrack_for_exec.cases) (auto dest: exec_call_raise.IH)
next
  case (exec_found board next_x next_y move_count board1 sp board2 rest)
  from exec_found.prems exec_found.hyps(1) show ?case
    by (cases rule: backtrack_for_exec.cases) (auto dest: exec_found.IH)
next
  case (exec_unmark_raise board next_x next_y move_count board1 sp board2 e rest)
  from exec_unmark_raise.prems exec_unmark_raise.hyps(1,3) show ?case
    by (cases rule: backtrack_for_exec.cases) (auto dest: exec_unmark_raise.IH)
next
  case (exec_next board next_x next_y move_count board1 sp board2 board3 rest r)
  from exec_next.prems show ?case
  proof (cases rule: backtrack_for_exec.cases)
    case (exec_mark_raise e)
    with exec_next.hyps(1) show ?thesis by simp
  next
    case (exec_call_raise b1 e)
    with exec_next.hyps(1) have "backtrack_exec sp next_x next_y (move_count + 1) board1 (Inl e)"
      by simp
    from exec_next.IH(1)[OF this] show ?thesis by simp
  next
    case (exec_found b1 b2)
    with exec_next.hyps(1)
    have "backtrack_exec sp next_x next_y (move_count + 1) board1 (Inr (True, b2))" by simp
    from exec_next.IH(1)[OF this] show ?thesis by simp
  next
    case (exec_unmark_raise b1 b2 e)
    with exec_next.hyps(1)
    have "backtrack_exec sp next_x next_y (move_count + 1) board1 (Inr (False, b2))" by simp
    from exec_next.IH(1)[OF this] have "b2 = board2" by simp
    with exec_unmark_raise(4) exec_next.hyps(3) show ?thesis by simp
  next
    case inner: (exec_next b1 b2 b3)
    with exec_next.hyps(1)
    have "backtrack_exec sp next_x next_y (move_count + 1) board1 (Inr (False, b2))" by simp
    from exec_next.IH(1)[OF this] have "b2 = board2" by simp
    with inner(3) exec_next.hyps(3) have "b3 = board3" by simp
    with inner(4) show ?thesis by (intro exec_next.IH(2)) simp
  qed
qed

lemma backtracking_exec_deterministic:
  assumes "KnightsTourBacktracking_exec start r" "KnightsTourBacktracking_exec start r'"
  shows "r' = r"
  using assms(1)
proof (cases rule: KnightsTourBacktracking_exec.cases)
  case (exec_start_raise x y e)
  with assms(2) show ?thesis
    by (cases rule: KnightsTourBacktracking_exec.cases) simp_all
next
  case (exec_start x y board)
  from assms(2) show ?thesis
  proof (cases rule: KnightsTourBacktracking_exec.cases)
    case (exec_start_raise x' y' e)
    with exec_start show ?thesis by simp
  next
    case inner: (exec_start x' y' board')
    with exec_start have "backtrack_exec (x, y) x y 1 board r'" by simp
    with exec_start(3) show ?thesis by (rule backtrack_exec_deterministic(1))
  qed
qed

lemma backtrack_exec_fun:
  "backtrack_exec sp x y mc b (backtrack sp x y mc b)"
  "backtrack_for_exec sp mc ms b (backtrack_for sp mc ms b)"
proof (induction sp x y mc b and sp mc ms b rule: backtrack_backtrack_for.induct)
  case (1 sp x y mc b)
  show ?case
  proof (cases "mc = total_squares")
    case True
    then show ?thesis by (simp add: backtrack.simps exec_base)
  next
    case False
    show ?thesis
    proof (cases "get_sorted_moves x y b")
      case (Inl e)
      with False show ?thesis by (simp add: backtrack.simps exec_moves_raise)
    next
      case (Inr ms)
      from False Inr 1[OF False Inr] show ?thesis
        by (simp add: backtrack.simps[of sp x y mc b] exec_loop)
    qed
  qed
next
  case (2 sp mc b)
  show ?case by (simp add: exec_for_end)
next
  case (3 sp mc nx ny rest b)
  show ?case
  proof (cases "board_set b nx ny (mc + 1)")
    case (Inl e)
    then show ?thesis by (simp add: exec_mark_raise)
  next
    case b1: (Inr b1)
    note call = 3(1)[OF b1]
    show ?thesis
    proof (cases "backtrack sp nx ny (mc + 1) b1")
      case (Inl e)
      with b1 call show ?thesis by (simp add: exec_call_raise)
    next
      case r: (Inr r)
      obtain found b2 where fr: "r = (found, b2)" by (cases r)
      show ?thesis
      proof (cases found)
        case True
        with b1 r fr call show ?thesis by (simp add: exec_found)
      next
        case False
        show ?thesis
        proof (cases "board_set b2 nx ny 0")
          case (Inl e)
          with b1 r fr False call show ?thesis by (simp add: exec_unmark_raise)
        next
          case b3: (Inr b3)
          from 3(2)[OF b1 r fr[symmetric] False b3] b1 r fr False call b3
          show ?thesis by (simp add: exec_next)
        qed
      qed
    qed
  qed
qed

lemma backtracking_exec_fun: "KnightsTourBacktracking_exec start (KnightsTourBacktracking start)"
proof -
  obtain x y where s: "start = (x, y)" by (cases start)
  show ?thesis
  proof (cases "board_set empty_board x y 1")
    case (Inl e)
    then show ?thesis by (simp add: s KnightsTourBacktracking_def exec_start_raise)
  next
    case (Inr b0)
    with backtrack_exec_fun(1)[of "(x, y)" x y 1 b0] show ?thesis
      by (simp add: s KnightsTourBacktracking_def exec_start)
  qed
qed

lemma las_vegas_loop_exec_fun:
  "KnightsTourLasVegas_loop_exec x y mc b (KnightsTourLasVegas_loop rnd x y mc b)"
proof (induction rnd x y mc b rule: KnightsTourLasVegas_loop.induct)
  case (1 rnd x y mc b)
  note simps = KnightsTourLasVegas_loop.simps[of rnd x y mc b]
  show ?case
  proof (cases "mc < total_squares")
    case False
    then show ?thesis by (simp add: simps lv_exec_full)
  next
    case True
    show ?thesis
    proof (cases "get_valid_moves x y b")
      case (Inl e)
      with True show ?thesis by (simp add: simps lv_exec_moves_raise)
    next
      case vm: (Inr vm)
      show ?thesis
      proof (cases "vm = []")
        case e: True
        with True vm show ?thesis by (simp add: simps lv_exec_stuck)
      next
        case ne: False
        then obtain m where ch: "random_choice (rnd 0) vm = Inr m"
          using random_choice_returns by blast
        obtain nx ny where m: "m = (nx, ny)" by (cases m)
        from ch m have mem: "(nx, ny) \<in> set vm" by (auto dest: random_choice_mem)
        show ?thesis
        proof (cases "board_set b nx ny (mc + 1)")
          case (Inl e)
          with True vm ne ch m mem show ?thesis
            by (simp add: simps lv_exec_mark_raise[OF True vm mem])
        next
          case b1: (Inr b1)
          have "KnightsTourLasVegas_loop_exec x y mc b
                  (KnightsTourLasVegas_loop (\<lambda>i. rnd (Suc i)) nx ny (mc + 1) b1)"
            using True vm mem b1 1[OF True vm ne ch[unfolded m] refl b1] by (rule lv_exec_move)
          with True vm ne ch m b1 show ?thesis by (simp add: simps)
        qed
      qed
    qed
  qed
qed

lemma las_vegas_exec_fun: "KnightsTourLasVegas_exec start (KnightsTourLasVegas rnd start)"
proof -
  obtain x y where s: "start = (x, y)" by (cases start)
  show ?thesis
  proof (cases "board_set empty_board x y 1")
    case (Inl e)
    then show ?thesis by (simp add: s KnightsTourLasVegas_def lv_exec_start_raise)
  next
    case b0: (Inr b0)
    note loop = las_vegas_loop_exec_fun[of x y 1 b0 rnd]
    show ?thesis
    proof (cases "KnightsTourLasVegas_loop rnd x y 1 b0")
      case (Inl e)
      with b0 loop show ?thesis by (simp add: s KnightsTourLasVegas_def lv_exec_loop_raise)
    next
      case (Inr r)
      obtain cx cy mc b' where r: "r = (cx, cy, mc, b')" by (cases r)
      from b0 loop Inr r show ?thesis
        by (simp add: s KnightsTourLasVegas_def lv_exec_result)
    qed
  qed
qed

lemma las_vegas_second_choice_run:
  "KnightsTourLasVegas (\<lambda>_. 1) (0, 0) \<noteq> Inr (False, stuck_board)"
  by code_simp

lemma las_vegas_exec_not_deterministic:
  "\<exists>r r'. KnightsTourLasVegas_exec (0, 0) r \<and> KnightsTourLasVegas_exec (0, 0) r' \<and> r' \<noteq> r"
proof -
  have "KnightsTourLasVegas_exec (0, 0) (Inr (False, stuck_board))"
    using las_vegas_exec_fun[of "(0, 0)" "\<lambda>_. 0"] by (simp add: las_vegas_first_choice_run)
  moreover have "KnightsTourLasVegas_exec (0, 0) (KnightsTourLasVegas (\<lambda>_. 1) (0, 0))"
    by (rule las_vegas_exec_fun)
  ultimately show ?thesis using las_vegas_second_choice_run by blast
qed

text \<open>
  Claim C9. An execution of \<open>KnightsTourBacktracking\<close> is determined by the start
  position: any two executions from the same start return the same result, the same flag
  and the same board, cell for cell. The code draws no random value and reads no state
  but its own board, so no rule of its executions offers a choice; the executions of
  \<open>KnightsTourLasVegas\<close>, which choose any of the valid moves, are not determined by
  the start (\<open>las_vegas_exec_not_deterministic\<close>). The function
  \<open>KnightsTourBacktracking\<close> gives the result of the executions.
\<close>

theorem backtracking_deterministic:
  "(KnightsTourBacktracking_exec start r1 \<and> KnightsTourBacktracking_exec start r2 \<longrightarrow> r1 = r2) \<and>
   KnightsTourBacktracking_exec start (KnightsTourBacktracking start) \<and>
   (in_bounds start \<longrightarrow>
      (\<exists>success board. \<forall>r. KnightsTourBacktracking_exec start r \<longleftrightarrow> r = Inr (success, board)))"
proof (intro conjI)
  show "KnightsTourBacktracking_exec start r1 \<and> KnightsTourBacktracking_exec start r2 \<longrightarrow> r1 = r2"
    using backtracking_exec_deterministic[of start r2 r1] by blast
  show f: "KnightsTourBacktracking_exec start (KnightsTourBacktracking start)"
    by (rule backtracking_exec_fun)
  show "in_bounds start \<longrightarrow>
      (\<exists>success board. \<forall>r. KnightsTourBacktracking_exec start r \<longleftrightarrow> r = Inr (success, board))"
  proof
    assume ib: "in_bounds start"
    let ?b0 = "mark empty_board start 1"
    have "in_bounds (fst start, snd start)" using ib by simp
    with wf_board_empty have set0: "board_set empty_board (fst start) (snd start) 1 = Inr ?b0"
      using board_set_wf[of empty_board "fst start" "snd start" 1] by simp
    have "wf_board ?b0" using wf_board_empty by (rule wf_board_mark)
    from backtrack_returns(1)[OF this] obtain ok b'
      where "backtrack start (fst start) (snd start) 1 ?b0 = Inr (ok, b')" by blast
    with set0 have e: "KnightsTourBacktracking start = Inr (ok, b')"
      by (simp add: KnightsTourBacktracking_def split_beta)
    have "KnightsTourBacktracking_exec start r \<longleftrightarrow> r = Inr (ok, b')" for r
    proof
      assume "KnightsTourBacktracking_exec start r"
      with f have "r = KnightsTourBacktracking start" by (rule backtracking_exec_deterministic)
      with e show "r = Inr (ok, b')" by simp
    next
      assume "r = Inr (ok, b')"
      with f e show "KnightsTourBacktracking_exec start r" by simp
    qed
    then show "\<exists>success board. \<forall>r. KnightsTourBacktracking_exec start r \<longleftrightarrow> r = Inr (success, board)"
      by blast
  qed
qed

theorem backtracking_deterministic_witness:
  "KnightsTourBacktracking_exec (0, 0) (Inr (True, corner_tour)) \<and>
   KnightsTourBacktracking_exec (0, 0) (KnightsTourBacktracking (0, 0)) \<and>
   Inr (True, corner_tour) = KnightsTourBacktracking (0, 0) \<and>
   in_bounds (0, 0) \<and>
   (\<forall>r. KnightsTourBacktracking_exec (0, 0) r \<longleftrightarrow> r = Inr (True, corner_tour))"
proof -
  note t = backtracking_deterministic[of "(0, 0)" "Inr (True, corner_tour)"
      "KnightsTourBacktracking (0, 0)"]
  from t have 2: "KnightsTourBacktracking_exec (0, 0) (KnightsTourBacktracking (0, 0))" by blast
  then have 1: "KnightsTourBacktracking_exec (0, 0) (Inr (True, corner_tour))"
    by (simp only: backtracking_corner_run)
  from t in_bounds_corner obtain success board
    where u: "\<forall>r. KnightsTourBacktracking_exec (0, 0) r \<longleftrightarrow> r = Inr (success, board)" by blast
  from u[THEN spec, of "Inr (True, corner_tour)"] 1
  have e: "Inr (True, corner_tour) = (Inr (success, board) :: py_error + bool \<times> board)"
    by (rule iffD1)
  from u have 3: "\<forall>r. KnightsTourBacktracking_exec (0, 0) r \<longleftrightarrow> r = Inr (True, corner_tour)"
    unfolding e .
  have 4: "Inr (True, corner_tour) = KnightsTourBacktracking (0, 0)"
    by (simp only: backtracking_corner_run)
  from 1 2 4 in_bounds_corner 3 show ?thesis by (intro conjI)
qed

section \<open>Closure check: properties\<close>

text \<open>
  Claim C10. The closure check is irreflexive: no knight offset is \<open>(0, 0)\<close>, so
  \<open>is_closed_tour p p\<close> is false for every position \<open>p\<close>; a tour whose final cell is
  its start cell is never reported as closed.
\<close>

theorem is_closed_tour_irreflexive: "is_closed_tour p p = False"
  by (cases p) (simp add: is_closed_tour_def KNIGHT_MOVES_def)

end
